theory Spec2Isabelle
  imports Main
begin

section \<open>Strings, numbers and identifiers\<close>

text \<open>
  A JavaScript string is a sequence of UTF-16 code units, and \<open>length\<close>, \<open>slice\<close> and
  \<open>trim\<close> count code units. Strings are therefore lists of code units (natural numbers);
  \<open>lit\<close> embeds an ASCII literal, and code units beyond ASCII are written as numbers
  (8212 is the em dash, 8226 the bullet, 8230 the ellipsis).
\<close>

type_synonym jstring = "nat list"

definition lit :: "string \<Rightarrow> jstring" where
  "lit s = map of_char s"

text \<open>The decimal rendering of a non-negative integer, as a template literal prints it.\<close>

fun showNat :: "nat \<Rightarrow> jstring" where
  "showNat n = (if n < 10 then [48 + n] else showNat (n div 10) @ [48 + n mod 10])"

declare showNat.simps [simp del]

text \<open>
  \<open>String.prototype.trim\<close> strips ECMAScript white space and line terminators from both
  ends: TAB, LF, VT, FF, CR, SP, NBSP, U+1680, U+2000..U+200A, U+2028, U+2029, U+202F,
  U+205F, U+3000 and U+FEFF.
\<close>

definition isWhiteSpace :: "nat \<Rightarrow> bool" where
  "isWhiteSpace c \<longleftrightarrow>
     c = 9 \<or> c = 10 \<or> c = 11 \<or> c = 12 \<or> c = 13 \<or> c = 32 \<or> c = 160 \<or> c = 5760
     \<or> (8192 \<le> c \<and> c \<le> 8202) \<or> c = 8232 \<or> c = 8233 \<or> c = 8239 \<or> c = 8287
     \<or> c = 12288 \<or> c = 65279"

definition trim :: "jstring \<Rightarrow> jstring" where
  "trim s = rev (dropWhile isWhiteSpace (rev (dropWhile isWhiteSpace s)))"

text \<open>\<open>Array.prototype.join\<close> on an array of strings.\<close>

fun joinWith :: "jstring \<Rightarrow> jstring list \<Rightarrow> jstring" where
  "joinWith sep [] = []"
| "joinWith sep [x] = x"
| "joinWith sep (x # y # ys) = x @ sep @ joinWith sep (y # ys)"

text \<open>
  \<open>createId\<close> is \<open>Math.random().toString(36).slice(2, 10)\<close>. The random draw is an input of
  the environment: the argument is the base-36 rendering of the number drawn, and the
  identifier is its code units 2 to 9. The session below receives the renderings of all
  draws as a sequence \<open>rnd\<close> and counts the draws made so far.
\<close>

definition createId :: "jstring \<Rightarrow> jstring" where
  "createId r = take 8 (drop 2 r)"

definition truncateText :: "jstring \<Rightarrow> nat \<Rightarrow> jstring" where
  "truncateText text limit = (if length text \<le> limit then text else take limit text @ [8230])"

fun findIndex :: "('a \<Rightarrow> bool) \<Rightarrow> 'a list \<Rightarrow> nat option" where
  "findIndex P [] = None"
| "findIndex P (x # xs) = (if P x then Some 0 else map_option Suc (findIndex P xs))"

section \<open>Data model\<close>

datatype Role = User | Assistant

datatype Reaction = Upvote | Downvote

record Attachment =
  att_id :: jstring
  att_name :: jstring
  att_type :: jstring
  att_size :: nat
  att_preview :: jstring

text \<open>
  Optional fields are options. \<open>msg_reaction\<close> is \<open>None\<close> for \<open>null\<close>: every message the
  source builds sets \<open>reaction: null\<close>. \<open>msg_attachments\<close> is \<open>None\<close> for \<open>undefined\<close>.
\<close>

record ConversationMessage =
  msg_id :: jstring
  msg_role :: Role
  msg_name :: jstring
  msg_avatarFallback :: jstring
  msg_avatarUrl :: "jstring option"
  msg_content :: jstring
  msg_markdown :: "bool option"
  msg_attachments :: "Attachment list option"
  msg_reaction :: "Reaction option"

record MessageTemplate =
  tpl_role :: Role
  tpl_name :: jstring
  tpl_avatarFallback :: jstring
  tpl_avatarUrl :: "jstring option"
  tpl_content :: jstring
  tpl_markdown :: "bool option"

record HistoryConversation =
  hc_id :: jstring
  hc_title :: jstring
  hc_preview :: jstring
  hc_timestamp :: jstring

record HistoryGroup =
  hg_label :: jstring
  hg_conversations :: "HistoryConversation list"

record ModelOption =
  mo_id :: jstring
  mo_label :: jstring

record ProviderOption =
  po_id :: jstring
  po_label :: jstring
  po_models :: "ModelOption list"

record FileInfo =
  file_name :: jstring
  file_type :: jstring
  file_size :: nat

section \<open>Constants of the module\<close>

definition providers :: "ProviderOption list" where
  "providers =
    [\<lparr>po_id = lit ''openai'', po_label = lit ''OpenAI'', po_models =
        [\<lparr>mo_id = lit ''gpt-4o'', mo_label = lit ''GPT-4o''\<rparr>,
         \<lparr>mo_id = lit ''gpt-4o-mini'', mo_label = lit ''GPT-4o mini''\<rparr>,
         \<lparr>mo_id = lit ''o3-mini'', mo_label = lit ''O3 mini''\<rparr>]\<rparr>,
     \<lparr>po_id = lit ''anthropic'', po_label = lit ''Anthropic'', po_models =
        [\<lparr>mo_id = lit ''claude-3.7-sonnet'', mo_label = lit ''Claude 3.7 Sonnet''\<rparr>,
         \<lparr>mo_id = lit ''claude-3.5-haiku'', mo_label = lit ''Claude 3.5 Haiku''\<rparr>]\<rparr>,
     \<lparr>po_id = lit ''google'', po_label = lit ''Google Gemini'', po_models =
        [\<lparr>mo_id = lit ''gemini-2.0-flash'', mo_label = lit ''Gemini 2.0 Flash''\<rparr>,
         \<lparr>mo_id = lit ''gemini-1.5-pro'', mo_label = lit ''Gemini 1.5 Pro''\<rparr>]\<rparr>,
     \<lparr>po_id = lit ''groq'', po_label = lit ''Groq'', po_models =
        [\<lparr>mo_id = lit ''llama-3.1-70b'', mo_label = lit ''Llama 3.1 70B''\<rparr>,
         \<lparr>mo_id = lit ''mixtral-8x7b'', mo_label = lit ''Mixtral 8x7B''\<rparr>]\<rparr>]"

definition historySeed :: "HistoryGroup list" where
  "historySeed =
    [\<lparr>hg_label = lit ''Today'', hg_conversations =
        [\<lparr>hc_id = lit ''today-1'', hc_title = lit ''Product launch prep'',
          hc_preview = lit ''Drafted announcement copy and QA checklist for beta release.'',
          hc_timestamp = lit ''2h ago''\<rparr>,
         \<lparr>hc_id = lit ''today-2'', hc_title = lit ''Onboarding survey'',
          hc_preview = lit ''Outlined questions that capture first-week friction and success signals.'',
          hc_timestamp = lit ''4h ago''\<rparr>,
         \<lparr>hc_id = lit ''today-3'', hc_title = lit ''Design critique notes'',
          hc_preview = lit ''Summarised feedback threads and grouped by priority / owner.'',
          hc_timestamp = lit ''6h ago''\<rparr>]\<rparr>,
     \<lparr>hg_label = lit ''Earlier this week'', hg_conversations =
        [\<lparr>hc_id = lit ''week-1'', hc_title = lit ''Support triage ideas'',
          hc_preview = lit ''Generated macros for the top friction requests from this week.'',
          hc_timestamp = lit ''3 days ago''\<rparr>,
         \<lparr>hc_id = lit ''week-2'', hc_title = lit ''Growth experiment doc'',
          hc_preview = lit ''Mapped out hypotheses, guardrail metrics, and rollout cadence.'',
          hc_timestamp = lit ''5 days ago''\<rparr>]\<rparr>]"

definition messageTemplates :: "MessageTemplate list" where
  "messageTemplates =
    [\<lparr>tpl_role = Assistant, tpl_name = lit ''Nova'', tpl_avatarFallback = lit ''NO'',
      tpl_avatarUrl = None,
      tpl_content = lit ''Hey there! I'm Nova, a prompt-kit powered assistant. Ask me anything about your product ideas, technical questions, or research tasks and I'll sketch out a plan you can wire up to your favourite model.'',
      tpl_markdown = None\<rparr>,
     \<lparr>tpl_role = User, tpl_name = lit ''You'', tpl_avatarFallback = lit ''YO'',
      tpl_avatarUrl = None,
      tpl_content = lit ''Let's create a user interview outline that digs into motivation and workflow pains.'',
      tpl_markdown = None\<rparr>,
     \<lparr>tpl_role = Assistant, tpl_name = lit ''Nova'', tpl_avatarFallback = lit ''NO'',
      tpl_avatarUrl = None,
      tpl_content = joinWith [10]
        [lit ''Absolutely '' @ [8212] @ lit '' here's a structured outline you can use:'',
         [],
         lit ''### Interview Outline'',
         lit ''1. **Warm up** '' @ [8212] @ lit '' \"Can you tell me about your role and day-to-day responsibilities?\"'',
         lit ''2. **Motivation** '' @ [8212] @ lit '' \"What made you start using [product/workflow]?\"'',
         lit ''3. **Current process** '' @ [8212] @ lit '' \"Walk me through your last attempt step-by-step.\"'',
         lit ''4. **Pain points** '' @ [8212] @ lit '' \"Where does it feel slow, confusing, or fragile?\"'',
         lit ''5. **Desired outcomes** '' @ [8212] @ lit '' \"If this was effortless, what would that unlock for you?\"'',
         [],
         lit ''Happy to tailor this if you share the audience or use case!''],
      tpl_markdown = Some True\<rparr>]"

section \<open>Pure helpers of the module\<close>

text \<open>
  \<open>createInitialMessages\<close> maps over the templates and draws one identifier per template;
  \<open>d\<close> is the number of draws made before the call.
\<close>

fun instantiateTemplates :: "(nat \<Rightarrow> jstring) \<Rightarrow> nat \<Rightarrow> MessageTemplate list \<Rightarrow> ConversationMessage list" where
  "instantiateTemplates rnd d [] = []"
| "instantiateTemplates rnd d (t # ts) =
     \<lparr>msg_id = createId (rnd d), msg_role = tpl_role t, msg_name = tpl_name t,
      msg_avatarFallback = tpl_avatarFallback t, msg_avatarUrl = tpl_avatarUrl t,
      msg_content = tpl_content t, msg_markdown = tpl_markdown t,
      msg_attachments = (if tpl_role t = User then Some [] else None),
      msg_reaction = None\<rparr> # instantiateTemplates rnd (Suc d) ts"

definition createInitialMessages :: "(nat \<Rightarrow> jstring) \<Rightarrow> nat \<Rightarrow> ConversationMessage list" where
  "createInitialMessages rnd d = instantiateTemplates rnd d messageTemplates"

definition createPlaceholderConversation ::
    "(nat \<Rightarrow> jstring) \<Rightarrow> nat \<Rightarrow> jstring \<Rightarrow> jstring \<Rightarrow> ConversationMessage list" where
  "createPlaceholderConversation rnd d title preview =
     [\<lparr>msg_id = createId (rnd d), msg_role = Assistant, msg_name = lit ''Nova'',
       msg_avatarFallback = lit ''NO'', msg_avatarUrl = None,
       msg_content = joinWith [10]
         [lit ''This is a placeholder view for **'' @ title @ lit ''**.'',
          [],
          preview,
          [],
          lit ''Load real messages here by persisting conversations and hydrating them when the user opens the thread.''],
       msg_markdown = Some True, msg_attachments = None, msg_reaction = None\<rparr>]"

definition cloneHistoryGroups :: "HistoryGroup list \<Rightarrow> HistoryGroup list" where
  "cloneHistoryGroups groups =
     map (\<lambda>section. \<lparr>hg_label = hg_label section,
                      hg_conversations =
                        map (\<lambda>conversation.
                               \<lparr>hc_id = hc_id conversation, hc_title = hc_title conversation,
                                hc_preview = hc_preview conversation,
                                hc_timestamp = hc_timestamp conversation\<rparr>)
                            (hg_conversations section)\<rparr>) groups"

text \<open>\<open>groups[0]?.conversations[0]?.id\<close>: \<open>None\<close> is \<open>undefined\<close>.\<close>

definition primaryIdOf :: "HistoryGroup list \<Rightarrow> jstring option" where
  "primaryIdOf groups =
     (case groups of [] \<Rightarrow> None
      | g # _ \<Rightarrow> (case hg_conversations g of [] \<Rightarrow> None | c # _ \<Rightarrow> Some (hc_id c)))"

text \<open>
  \<open>buildInitialConversationMap\<close>: the two nested \<open>forEach\<close> loops, threading the map built
  so far and the number of draws made.
\<close>

fun buildSection ::
    "(nat \<Rightarrow> jstring) \<Rightarrow> jstring option \<Rightarrow> HistoryConversation list \<Rightarrow>
     (jstring \<rightharpoonup> ConversationMessage list) \<times> nat \<Rightarrow> (jstring \<rightharpoonup> ConversationMessage list) \<times> nat" where
  "buildSection rnd primaryId [] acc = acc"
| "buildSection rnd primaryId (conversation # rest) (m, d) =
     (if Some (hc_id conversation) = primaryId
      then buildSection rnd primaryId rest
             (m(hc_id conversation \<mapsto> createInitialMessages rnd d), d + length messageTemplates)
      else buildSection rnd primaryId rest
             (m(hc_id conversation \<mapsto>
                  createPlaceholderConversation rnd d (hc_title conversation) (hc_preview conversation)),
              Suc d))"

fun buildSections ::
    "(nat \<Rightarrow> jstring) \<Rightarrow> jstring option \<Rightarrow> HistoryGroup list \<Rightarrow>
     (jstring \<rightharpoonup> ConversationMessage list) \<times> nat \<Rightarrow> (jstring \<rightharpoonup> ConversationMessage list) \<times> nat" where
  "buildSections rnd primaryId [] acc = acc"
| "buildSections rnd primaryId (section # rest) acc =
     buildSections rnd primaryId rest (buildSection rnd primaryId (hg_conversations section) acc)"

definition buildInitialConversationMap ::
    "(nat \<Rightarrow> jstring) \<Rightarrow> nat \<Rightarrow> HistoryGroup list \<Rightarrow> (jstring \<rightharpoonup> ConversationMessage list) \<times> nat" where
  "buildInitialConversationMap rnd d groups =
     buildSections rnd (primaryIdOf groups) groups (Map.empty, d)"

fun findConversationTitle :: "HistoryGroup list \<Rightarrow> jstring \<Rightarrow> jstring" where
  "findConversationTitle [] conversationId = lit ''Untitled chat''"
| "findConversationTitle (section # rest) conversationId =
     (case find (\<lambda>entry. hc_id entry = conversationId) (hg_conversations section) of
        Some conversation \<Rightarrow> hc_title conversation
      | None \<Rightarrow> findConversationTitle rest conversationId)"

subsection \<open>Promotion in the history index\<close>

text \<open>
  The \<open>for ... of\<close> loop of \<open>promoteConversation\<close>: the first section that holds the
  identifier loses the first summary carrying it (\<open>splice(index, 1)\<close>), and the loop
  breaks. The result is the summary removed (\<open>None\<close> for \<open>null\<close>) and the sections.
\<close>

fun spliceExisting ::
    "jstring \<Rightarrow> HistoryGroup list \<Rightarrow> HistoryConversation option \<times> HistoryGroup list" where
  "spliceExisting conversationId [] = (None, [])"
| "spliceExisting conversationId (section # rest) =
     (case findIndex (\<lambda>conversation. hc_id conversation = conversationId) (hg_conversations section) of
        Some index \<Rightarrow>
          (Some (hg_conversations section ! index),
           section\<lparr>hg_conversations :=
                     take index (hg_conversations section) @ drop (Suc index) (hg_conversations section)\<rparr>
             # rest)
      | None \<Rightarrow>
          (case spliceExisting conversationId rest of
             (existing, rest') \<Rightarrow> (existing, section # rest')))"

definition promoteConversation ::
    "HistoryGroup list \<Rightarrow> jstring \<Rightarrow> (HistoryConversation option \<Rightarrow> HistoryConversation) \<Rightarrow>
     HistoryGroup list" where
  "promoteConversation groups conversationId updater =
     (case spliceExisting conversationId (cloneHistoryGroups groups) of
        (existing, next0) \<Rightarrow>
          let updated = updater existing;
              next1 = (if length next0 = 0
                       then next0 @ [\<lparr>hg_label = lit ''Today'', hg_conversations = []\<rparr>]
                       else next0)
          in (hd next1)\<lparr>hg_conversations :=
                          updated # filter (\<lambda>conversation. hc_id conversation \<noteq> hc_id updated)
                                      (hg_conversations (hd next1))\<rparr>
             # tl next1)"

section \<open>The session state and its handlers\<close>

text \<open>
  The React state of the \<open>Chatbot\<close> component, and the part of the environment it
  interacts with: the number of random draws made so far, the next timer handle of
  \<open>window.setTimeout\<close>, and the callbacks scheduled and not yet run. A reply timer holds
  the two values its closure captured: the conversation identifier and the assistant
  message. The source never calls \<open>clearTimeout\<close>, so a timer leaves the list only by
  running.
\<close>

record State =
  historyGroups :: "HistoryGroup list"
  conversations :: "jstring \<rightharpoonup> ConversationMessage list"
  activeConversationId :: jstring
  activeConversationTitle :: jstring
  chatCounter :: nat
  composerAttachments :: "Attachment list"
  copiedMessageId :: "jstring option"
  input :: jstring
  isGenerating :: bool
  selectedProviderId :: jstring
  selectedModelId :: jstring
  isSidebarOpen :: bool
  draws :: nat
  nextTimer :: nat
  replyTimers :: "(nat \<times> jstring \<times> ConversationMessage) list"
  copyTimers :: "(nat \<times> jstring) list"

definition seedActiveConversationId :: "(nat \<Rightarrow> jstring) \<Rightarrow> jstring" where
  "seedActiveConversationId rnd =
     (case primaryIdOf historySeed of Some i \<Rightarrow> i | None \<Rightarrow> createId (rnd 0))"

definition seedActiveConversationTitle :: "(nat \<Rightarrow> jstring) \<Rightarrow> jstring" where
  "seedActiveConversationTitle rnd = findConversationTitle historySeed (seedActiveConversationId rnd)"

text \<open>The state after the first render: the initialisers of the \<open>useState\<close> calls.\<close>

definition initialState :: "(nat \<Rightarrow> jstring) \<Rightarrow> State" where
  "initialState rnd =
     (case buildInitialConversationMap rnd
             (case primaryIdOf historySeed of Some _ \<Rightarrow> 0 | None \<Rightarrow> 1) historySeed of
        (m, d) \<Rightarrow>
          \<lparr>historyGroups = cloneHistoryGroups historySeed,
           conversations = m,
           activeConversationId = seedActiveConversationId rnd,
           activeConversationTitle = seedActiveConversationTitle rnd,
           chatCounter = foldl (\<lambda>total section. total + length (hg_conversations section)) 0 historySeed + 1,
           composerAttachments = [],
           copiedMessageId = None,
           input = [],
           isGenerating = False,
           selectedProviderId = po_id (hd providers),
           selectedModelId = mo_id (hd (po_models (hd providers))),
           isSidebarOpen = False,
           draws = d,
           nextTimer = 0,
           replyTimers = [],
           copyTimers = []\<rparr>)"

text \<open>
  \<open>activeProvider\<close> and \<open>activeModel\<close> fall back to the first entry. \<open>providers\<close> is a
  non-empty constant and every provider has a model, so \<open>hd\<close> is the source's \<open>[0]\<close>.
\<close>

definition activeProvider :: "State \<Rightarrow> ProviderOption" where
  "activeProvider s =
     (case find (\<lambda>provider. po_id provider = selectedProviderId s) providers of
        Some provider \<Rightarrow> provider | None \<Rightarrow> hd providers)"

definition activeModel :: "State \<Rightarrow> ModelOption" where
  "activeModel s =
     (case find (\<lambda>model. mo_id model = selectedModelId s) (po_models (activeProvider s)) of
        Some model \<Rightarrow> model | None \<Rightarrow> hd (po_models (activeProvider s)))"

definition messages :: "State \<Rightarrow> ConversationMessage list" where
  "messages s = (case conversations s (activeConversationId s) of Some ms \<Rightarrow> ms | None \<Rightarrow> [])"

definition hasPendingInput :: "State \<Rightarrow> bool" where
  "hasPendingInput s \<longleftrightarrow> length (trim (input s)) > 0 \<or> length (composerAttachments s) > 0"

definition updateConversationMessages ::
    "jstring \<Rightarrow> (ConversationMessage list \<Rightarrow> ConversationMessage list) \<Rightarrow>
     (jstring \<rightharpoonup> ConversationMessage list) \<Rightarrow> (jstring \<rightharpoonup> ConversationMessage list)" where
  "updateConversationMessages conversationId updater previous =
     (let current = (case previous conversationId of Some ms \<Rightarrow> ms | None \<Rightarrow> [])
      in previous(conversationId \<mapsto> updater current))"

text \<open>\<open>title\<close> is the optional third parameter: \<open>None\<close> is \<open>undefined\<close>.\<close>

definition refreshHistoryPreview ::
    "jstring \<Rightarrow> jstring \<Rightarrow> jstring option \<Rightarrow> HistoryGroup list \<Rightarrow> HistoryGroup list" where
  "refreshHistoryPreview conversationId preview title previous =
     promoteConversation previous conversationId
       (\<lambda>existing.
          \<lparr>hc_id = (case existing of Some e \<Rightarrow> hc_id e | None \<Rightarrow> conversationId),
           hc_title = (case title of Some t \<Rightarrow> t
                       | None \<Rightarrow> (case existing of Some e \<Rightarrow> hc_title e
                                   | None \<Rightarrow> lit ''Untitled chat'')),
           hc_preview = truncateText preview 80,
           hc_timestamp = lit ''Just now''\<rparr>)"

text \<open>
  The \<open>onload\<close> callback of the \<open>FileReader\<close> that \<open>addAttachmentFromFile\<close> starts; \<open>result\<close>
  is \<open>reader.result\<close> when it is a string.
\<close>

definition addAttachmentFromFile :: "(nat \<Rightarrow> jstring) \<Rightarrow> FileInfo \<Rightarrow> jstring option \<Rightarrow> State \<Rightarrow> State" where
  "addAttachmentFromFile rnd file result s =
     (case result of
        None \<Rightarrow> s
      | Some dataUrl \<Rightarrow>
          s\<lparr>composerAttachments := composerAttachments s @
               [\<lparr>att_id = createId (rnd (draws s)),
                 att_name = (if file_name file \<noteq> [] then file_name file
                             else lit ''pasted-image-'' @ showNat (length (composerAttachments s) + 1)
                                  @ lit ''.png''),
                 att_type = file_type file,
                 att_size = file_size file,
                 att_preview = dataUrl\<rparr>],
            draws := Suc (draws s)\<rparr>)"

definition handleRemoveAttachment :: "jstring \<Rightarrow> State \<Rightarrow> State" where
  "handleRemoveAttachment attachmentId s =
     s\<lparr>composerAttachments :=
         filter (\<lambda>attachment. att_id attachment \<noteq> attachmentId) (composerAttachments s)\<rparr>"

text \<open>
  \<open>handleCopy\<close> awaits the clipboard. When the promise resolves the marker is set and a
  timer is scheduled; when it rejects the marker is cleared.
\<close>

definition handleCopyResolved :: "ConversationMessage \<Rightarrow> State \<Rightarrow> State" where
  "handleCopyResolved message s =
     s\<lparr>copiedMessageId := Some (msg_id message),
       copyTimers := copyTimers s @ [(nextTimer s, msg_id message)],
       nextTimer := Suc (nextTimer s)\<rparr>"

definition handleCopyRejected :: "State \<Rightarrow> State" where
  "handleCopyRejected s = s\<lparr>copiedMessageId := None\<rparr>"

definition copyTimeout :: "nat \<Rightarrow> State \<Rightarrow> State" where
  "copyTimeout h s =
     (case map_of (copyTimers s) h of
        None \<Rightarrow> s
      | Some messageId \<Rightarrow>
          s\<lparr>copiedMessageId := (if copiedMessageId s = Some messageId then None else copiedMessageId s),
            copyTimers := filter (\<lambda>t. fst t \<noteq> h) (copyTimers s)\<rparr>)"

definition toggleMessages :: "jstring \<Rightarrow> Reaction \<Rightarrow> ConversationMessage list \<Rightarrow> ConversationMessage list" where
  "toggleMessages messageId reaction current =
     map (\<lambda>message.
            if msg_id message = messageId
            then message\<lparr>msg_reaction := (if msg_reaction message = Some reaction then None else Some reaction)\<rparr>
            else message) current"

definition toggleReaction :: "jstring \<Rightarrow> Reaction \<Rightarrow> State \<Rightarrow> State" where
  "toggleReaction messageId reaction s =
     (let conversationId = activeConversationId s
      in s\<lparr>conversations :=
             updateConversationMessages conversationId (toggleMessages messageId reaction) (conversations s)\<rparr>)"

subsection \<open>Submit\<close>

definition attachmentsSummary :: "Attachment list \<Rightarrow> jstring option" where
  "attachmentsSummary attachments =
     (if length attachments > 0
      then Some (lit ''Shared '' @ showNat (length attachments) @ lit '' attachment''
                 @ (if length attachments > 1 then lit ''s'' else []))
      else None)"

text \<open>
  \<open>prompt || attachmentsSummary || "Sent a message"\<close>: the empty string and \<open>undefined\<close> are
  the falsy operands.
\<close>

definition userContent :: "jstring \<Rightarrow> Attachment list \<Rightarrow> jstring" where
  "userContent prompt attachments =
     (if prompt \<noteq> [] then prompt
      else (case attachmentsSummary attachments of
              Some summary \<Rightarrow> (if summary \<noteq> [] then summary else lit ''Sent a message'')
            | None \<Rightarrow> lit ''Sent a message''))"

definition providerSummary :: "State \<Rightarrow> jstring" where
  "providerSummary s = po_label (activeProvider s) @ [32, 8226, 32] @ mo_label (activeModel s)"

text \<open>\<open>.filter(Boolean)\<close> drops \<open>undefined\<close> and the empty string.\<close>

definition filterBoolean :: "jstring option list \<Rightarrow> jstring list" where
  "filterBoolean xs = concat (map (\<lambda>x. case x of None \<Rightarrow> [] | Some t \<Rightarrow> (if t = [] then [] else [t])) xs)"

definition assistantContent :: "jstring \<Rightarrow> Attachment list \<Rightarrow> jstring" where
  "assistantContent summary attachments =
     joinWith [10, 10]
       (filterBoolean
          [Some (lit ''Pretending to call '' @ summary @ lit ''.''),
           (if length attachments \<noteq> 0
            then Some (lit ''I spotted '' @ showNat (length attachments) @ lit '' attachment''
                       @ (if length attachments > 1 then lit ''s'' else [])
                       @ lit ''. Replace this with your vision/tool call.'')
            else None),
           Some (lit ''Swap this helper with your real API handler and stream tokens into the conversation.'')])"

text \<open>\<open>{ ...attachment }\<close>: a new object with the same fields.\<close>

definition copyAttachment :: "Attachment \<Rightarrow> Attachment" where
  "copyAttachment attachment =
     \<lparr>att_id = att_id attachment, att_name = att_name attachment, att_type = att_type attachment,
      att_size = att_size attachment, att_preview = att_preview attachment\<rparr>"

text \<open>
  \<open>handleSubmit\<close>: the guard, the two messages (the user's identifier is drawn first),
  the append of the user message, the promotion, the resets, and the timer, whose
  closure holds \<open>conversationId\<close> and \<open>assistantMessage\<close>.
\<close>

definition handleSubmit :: "(nat \<Rightarrow> jstring) \<Rightarrow> State \<Rightarrow> State" where
  "handleSubmit rnd s =
     (if \<not> hasPendingInput s \<or> isGenerating s then s
      else
        let conversationId = activeConversationId s;
            conversationTitle = activeConversationTitle s;
            prompt = trim (input s);
            attachments = map copyAttachment (composerAttachments s);
            userMessage =
              \<lparr>msg_id = createId (rnd (draws s)), msg_role = User, msg_name = lit ''You'',
               msg_avatarFallback = lit ''YO'', msg_avatarUrl = None,
               msg_content = userContent prompt attachments, msg_markdown = None,
               msg_attachments = (if length attachments \<noteq> 0 then Some attachments else None),
               msg_reaction = None\<rparr>;
            assistantMessage =
              \<lparr>msg_id = createId (rnd (Suc (draws s))), msg_role = Assistant, msg_name = lit ''Nova'',
               msg_avatarFallback = lit ''NO'', msg_avatarUrl = None,
               msg_content = assistantContent (providerSummary s) attachments,
               msg_markdown = Some True, msg_attachments = None, msg_reaction = None\<rparr>
        in s\<lparr>conversations :=
               updateConversationMessages conversationId (\<lambda>current. current @ [userMessage]) (conversations s),
             historyGroups :=
               refreshHistoryPreview conversationId (userContent prompt attachments)
                 (Some conversationTitle) (historyGroups s),
             composerAttachments := [],
             input := [],
             copiedMessageId := None,
             isGenerating := True,
             draws := draws s + 2,
             replyTimers := replyTimers s @ [(nextTimer s, conversationId, assistantMessage)],
             nextTimer := Suc (nextTimer s)\<rparr>)"

text \<open>The callback of the timer with handle \<open>h\<close>, run when its 600 ms have elapsed.\<close>

definition replyTimeout :: "nat \<Rightarrow> State \<Rightarrow> State" where
  "replyTimeout h s =
     (case map_of (replyTimers s) h of
        None \<Rightarrow> s
      | Some (conversationId, assistantMessage) \<Rightarrow>
          s\<lparr>conversations :=
              updateConversationMessages conversationId (\<lambda>current. current @ [assistantMessage])
                (conversations s),
            isGenerating := False,
            replyTimers := filter (\<lambda>t. fst t \<noteq> h) (replyTimers s)\<rparr>)"

subsection \<open>Conversation lifecycle\<close>

definition handleNewChat :: "(nat \<Rightarrow> jstring) \<Rightarrow> State \<Rightarrow> State" where
  "handleNewChat rnd s =
     (let conversationId = createId (rnd (draws s));
          conversationTitle = lit ''Untitled chat '' @ showNat (chatCounter s)
      in s\<lparr>chatCounter := chatCounter s + 1,
           conversations := (conversations s)(conversationId \<mapsto> createInitialMessages rnd (Suc (draws s))),
           activeConversationId := conversationId,
           activeConversationTitle := conversationTitle,
           composerAttachments := [],
           input := [],
           copiedMessageId := None,
           isGenerating := False,
           isSidebarOpen := False,
           historyGroups :=
             promoteConversation (historyGroups s) conversationId
               (\<lambda>existing. \<lparr>hc_id = conversationId, hc_title = conversationTitle,
                             hc_preview = lit ''Say hello to Nova to get started.'',
                             hc_timestamp = lit ''Just now''\<rparr>),
           draws := Suc (draws s) + length messageTemplates\<rparr>)"

definition handleSelectConversation :: "(nat \<Rightarrow> jstring) \<Rightarrow> HistoryConversation \<Rightarrow> State \<Rightarrow> State" where
  "handleSelectConversation rnd conversation s =
     s\<lparr>activeConversationId := hc_id conversation,
       activeConversationTitle := hc_title conversation,
       isSidebarOpen := False,
       composerAttachments := [],
       input := [],
       copiedMessageId := None,
       isGenerating := False,
       conversations :=
         (case conversations s (hc_id conversation) of
            Some _ \<Rightarrow> conversations s
          | None \<Rightarrow> (conversations s)(hc_id conversation \<mapsto>
                       createPlaceholderConversation rnd (draws s) (hc_title conversation) (hc_preview conversation))),
       draws := (case conversations s (hc_id conversation) of Some _ \<Rightarrow> draws s | None \<Rightarrow> Suc (draws s)),
       historyGroups :=
         promoteConversation (historyGroups s) (hc_id conversation)
           (\<lambda>existing. case existing of Some e \<Rightarrow> e | None \<Rightarrow> conversation)\<rparr>"

text \<open>
  Choosing a provider sets \<open>selectedProviderId\<close>; the effect that depends on it then
  keeps the model when the provider offers it and takes the provider's first model
  otherwise.
\<close>

definition selectProvider :: "jstring \<Rightarrow> State \<Rightarrow> State" where
  "selectProvider providerId s =
     (let provider = (case find (\<lambda>item. po_id item = providerId) providers of
                        Some item \<Rightarrow> item | None \<Rightarrow> hd providers)
      in s\<lparr>selectedProviderId := providerId,
           selectedModelId :=
             (if list_ex (\<lambda>model. mo_id model = selectedModelId s) (po_models provider)
              then selectedModelId s else mo_id (hd (po_models provider)))\<rparr>)"

subsection \<open>Events\<close>

text \<open>
  Every callback that changes the state is an event; the handlers run to completion one
  after the other. Pasting or uploading files only starts readers (for the files whose
  type starts with \<open>image/\<close>); their effect on the state is \<open>FileLoaded\<close>.
\<close>

datatype Event =
    SetInput jstring
  | FileLoaded FileInfo "jstring option"
  | RemoveAttachment jstring
  | CopyResolved ConversationMessage
  | CopyRejected
  | CopyTimeout nat
  | ToggleReaction jstring Reaction
  | Submit
  | ReplyTimeout nat
  | NewChat
  | SelectConversation HistoryConversation
  | SelectProvider jstring
  | SelectModel jstring
  | SetSidebarOpen bool

fun step :: "(nat \<Rightarrow> jstring) \<Rightarrow> Event \<Rightarrow> State \<Rightarrow> State" where
  "step rnd (SetInput v) s = s\<lparr>input := v\<rparr>"
| "step rnd (FileLoaded file result) s = addAttachmentFromFile rnd file result s"
| "step rnd (RemoveAttachment attachmentId) s = handleRemoveAttachment attachmentId s"
| "step rnd (CopyResolved message) s = handleCopyResolved message s"
| "step rnd CopyRejected s = handleCopyRejected s"
| "step rnd (CopyTimeout h) s = copyTimeout h s"
| "step rnd (ToggleReaction messageId reaction) s = toggleReaction messageId reaction s"
| "step rnd Submit s = handleSubmit rnd s"
| "step rnd (ReplyTimeout h) s = replyTimeout h s"
| "step rnd NewChat s = handleNewChat rnd s"
| "step rnd (SelectConversation conversation) s = handleSelectConversation rnd conversation s"
| "step rnd (SelectProvider providerId) s = selectProvider providerId s"
| "step rnd (SelectModel modelId) s = s\<lparr>selectedModelId := modelId\<rparr>"
| "step rnd (SetSidebarOpen b) s = s\<lparr>isSidebarOpen := b\<rparr>"

fun run :: "(nat \<Rightarrow> jstring) \<Rightarrow> Event list \<Rightarrow> State \<Rightarrow> State" where
  "run rnd [] s = s"
| "run rnd (e # es) s = run rnd es (step rnd e s)"

section \<open>Observations and sample inputs\<close>

text \<open>
  \<open>conversationOf\<close> reads a conversation the way every reader in the source does
  (\<open>conversations[id] ?? []\<close>). A state is reachable when some sequence of events leads
  to it from the first render.
\<close>

definition conversationOf :: "State \<Rightarrow> jstring \<Rightarrow> ConversationMessage list" where
  "conversationOf s conversationId = (case conversations s conversationId of Some ms \<Rightarrow> ms | None \<Rightarrow> [])"

definition reachable :: "(nat \<Rightarrow> jstring) \<Rightarrow> State \<Rightarrow> bool" where
  "reachable rnd s \<longleftrightarrow> (\<exists>evs. s = run rnd evs (initialState rnd))"

text \<open>
  The events after which \<open>isGenerating\<close> is false whatever it was before: the two
  handlers that call \<open>setIsGenerating(false)\<close> and the callback of a reply timer.
\<close>

fun resetsGenerating :: "Event \<Rightarrow> bool" where
  "resetsGenerating NewChat = True"
| "resetsGenerating (SelectConversation c) = True"
| "resetsGenerating (ReplyTimeout h) = True"
| "resetsGenerating e = False"

text \<open>
  Two facts about the timers of a state: every pending reply timer has a handle below
  the next one, and a handle is spent when it was given out and its timer has run.
\<close>

definition handlesBelow :: "State \<Rightarrow> bool" where
  "handlesBelow s \<longleftrightarrow> (\<forall>t \<in> set (replyTimers s). fst t < nextTimer s)"

definition spent :: "nat \<Rightarrow> State \<Rightarrow> bool" where
  "spent h s \<longleftrightarrow> h < nextTimer s \<and> map_of (replyTimers s) h = None"

text \<open>
  Sample inputs for the concrete instances below: a sequence of draws whose \<open>n\<close>-th
  rendering is \<open>0.\<close> followed by the decimal digits of \<open>n\<close>, the state after typing
  \<open>hello\<close>, and the state after one image has been read.
\<close>

definition sampleDraws :: "nat \<Rightarrow> jstring" where
  "sampleDraws n = lit ''0.'' @ showNat n"

definition sampleTyped :: State where
  "sampleTyped = run sampleDraws [SetInput (lit ''hello'')] (initialState sampleDraws)"

definition sampleStaged :: State where
  "sampleStaged = run sampleDraws
     [FileLoaded \<lparr>file_name = lit ''shot.png'', file_type = lit ''image/png'', file_size = 2048\<rparr>
        (Some (lit ''data:image/png;base64,AAAA''))]
     (initialState sampleDraws)"

definition sampleSummary :: HistoryConversation where
  "sampleSummary = \<lparr>hc_id = lit ''week-1'', hc_title = lit ''Support triage ideas'',
     hc_preview = lit ''Generated macros for the top friction requests from this week.'',
     hc_timestamp = lit ''Just now''\<rparr>"

definition sampleFresh :: HistoryConversation where
  "sampleFresh = \<lparr>hc_id = lit ''abc12345'', hc_title = lit ''Untitled chat 6'',
     hc_preview = lit ''Say hello to Nova to get started.'', hc_timestamp = lit ''Just now''\<rparr>"

definition sampleSeedEntry :: HistoryConversation where
  "sampleSeedEntry = \<lparr>hc_id = lit ''week-2'', hc_title = lit ''Growth experiment doc'',
     hc_preview = lit ''Mapped out hypotheses, guardrail metrics, and rollout cadence.'',
     hc_timestamp = lit ''5 days ago''\<rparr>"

definition constantSummary :: "HistoryConversation \<Rightarrow> HistoryConversation option \<Rightarrow> HistoryConversation" where
  "constantSummary summary existing = summary"

subsection \<open>Observations of the history index\<close>

text \<open>
  The summaries and the identifiers of an index in display order, whether a group holds
  an identifier, the index with every summary of an identifier filtered out, and a
  sequence of \<open>promoteConversation\<close> calls. A summary factory keeps the identifier
  when the summary it returns carries the promoted identifier, for \<open>null\<close> and for every
  existing summary that carries it; the three call sites of the source pass such
  factories.
\<close>

definition allSummaries :: "HistoryGroup list \<Rightarrow> HistoryConversation list" where
  "allSummaries groups = concat (map hg_conversations groups)"

definition allIds :: "HistoryGroup list \<Rightarrow> jstring list" where
  "allIds groups = map hc_id (allSummaries groups)"

definition holdsId :: "jstring \<Rightarrow> HistoryGroup \<Rightarrow> bool" where
  "holdsId conversationId section \<longleftrightarrow> conversationId \<in> hc_id ` set (hg_conversations section)"

definition keepsId :: "jstring \<Rightarrow> (HistoryConversation option \<Rightarrow> HistoryConversation) \<Rightarrow> bool" where
  "keepsId conversationId updater \<longleftrightarrow>
     hc_id (updater None) = conversationId
     \<and> (\<forall>existing. hc_id existing = conversationId \<longrightarrow> hc_id (updater (Some existing)) = conversationId)"

definition withoutId :: "jstring \<Rightarrow> HistoryGroup list \<Rightarrow> HistoryGroup list" where
  "withoutId conversationId groups =
     map (\<lambda>section. section\<lparr>hg_conversations :=
            filter (\<lambda>c. hc_id c \<noteq> conversationId) (hg_conversations section)\<rparr>) groups"

fun promoteAll ::
    "HistoryGroup list \<Rightarrow> (jstring \<times> (HistoryConversation option \<Rightarrow> HistoryConversation)) list \<Rightarrow>
     HistoryGroup list" where
  "promoteAll groups [] = groups"
| "promoteAll groups (call # calls) = promoteAll (promoteConversation groups (fst call) (snd call)) calls"

text \<open>
  Two facts about a state: every identifier of the history index occurs once and has an
  entry in the conversation store; and a conversation holds, at a given index, a given
  message up to its reaction.
\<close>

definition historyBacked :: "State \<Rightarrow> bool" where
  "historyBacked s \<longleftrightarrow>
     distinct (allIds (historyGroups s)) \<and> set (allIds (historyGroups s)) \<subseteq> dom (conversations s)"

definition keepsMessage :: "nat \<Rightarrow> ConversationMessage \<Rightarrow> jstring \<Rightarrow> State \<Rightarrow> bool" where
  "keepsMessage k m conversationId s \<longleftrightarrow>
     k < length (conversationOf s conversationId)
     \<and> (conversationOf s conversationId ! k)\<lparr>msg_reaction := None\<rparr> = m"

section \<open>promoteConversation on an explicit store\<close>

text \<open>
  \<open>promoteConversation\<close> works by mutation: \<open>splice\<close> on a conversations array,
  \<open>push\<close> on the array of groups, and an assignment to \<open>next[0].conversations\<close>.
  Whether it changes its argument depends on what \<open>cloneHistoryGroups\<close> copies, so the
  function is modelled a second time on a store of objects: a summary object, a group
  object (its label and the reference to its conversations array), an array of references
  to summaries, and an array of references to groups. A reference is an index into the
  store and allocation appends a cell. A result of \<open>None\<close> is a reference that does not
  point to an object of the kind the code expects, which the types of the source exclude.
\<close>

datatype cell =
    ConversationCell HistoryConversation
  | GroupCell jstring nat
  | ConversationArray "nat list"
  | GroupArray "nat list"

type_synonym heap = "cell list"

definition cellAt :: "heap \<Rightarrow> nat \<Rightarrow> cell option" where
  "cellAt h a = (if a < length h then Some (h ! a) else None)"

definition alloc :: "heap \<Rightarrow> cell \<Rightarrow> nat \<times> heap" where
  "alloc h c = (length h, h @ [c])"

text \<open>
  \<open>cloneHistoryGroups\<close>: a new array of new group objects, each with a new array of new
  summary objects (\<open>{ ...conversation }\<close>).
\<close>

fun cloneConversations_h :: "heap \<Rightarrow> nat list \<Rightarrow> (nat list \<times> heap) option" where
  "cloneConversations_h h [] = Some ([], h)"
| "cloneConversations_h h (conversation # rest) =
     (case cellAt h conversation of
        Some (ConversationCell c) \<Rightarrow>
          (case alloc h (ConversationCell c) of
             (copy, h1) \<Rightarrow>
               (case cloneConversations_h h1 rest of
                  Some (copies, h2) \<Rightarrow> Some (copy # copies, h2)
                | None \<Rightarrow> None))
      | _ \<Rightarrow> None)"

fun cloneSections_h :: "heap \<Rightarrow> nat list \<Rightarrow> (nat list \<times> heap) option" where
  "cloneSections_h h [] = Some ([], h)"
| "cloneSections_h h (section # rest) =
     (case cellAt h section of
        Some (GroupCell label items) \<Rightarrow>
          (case cellAt h items of
             Some (ConversationArray cs) \<Rightarrow>
               (case cloneConversations_h h cs of
                  Some (copies, h1) \<Rightarrow>
                    (case alloc h1 (ConversationArray copies) of
                       (array, h2) \<Rightarrow>
                         (case alloc h2 (GroupCell label array) of
                            (copy, h3) \<Rightarrow>
                              (case cloneSections_h h3 rest of
                                 Some (sections, h4) \<Rightarrow> Some (copy # sections, h4)
                               | None \<Rightarrow> None)))
                | None \<Rightarrow> None)
           | _ \<Rightarrow> None)
      | _ \<Rightarrow> None)"

definition cloneHistoryGroups_h :: "heap \<Rightarrow> nat \<Rightarrow> (nat \<times> heap) option" where
  "cloneHistoryGroups_h h groups =
     (case cellAt h groups of
        Some (GroupArray sections) \<Rightarrow>
          (case cloneSections_h h sections of
             Some (copies, h1) \<Rightarrow> Some (alloc h1 (GroupArray copies))
           | None \<Rightarrow> None)
      | _ \<Rightarrow> None)"

text \<open>
  The loop: \<open>findIndex\<close> reads the identifiers through the references; \<open>splice\<close>
  overwrites the array of the section in place and returns the reference removed.
\<close>

fun findIndex_h :: "heap \<Rightarrow> jstring \<Rightarrow> nat list \<Rightarrow> nat option option" where
  "findIndex_h h conversationId [] = Some None"
| "findIndex_h h conversationId (conversation # rest) =
     (case cellAt h conversation of
        Some (ConversationCell c) \<Rightarrow>
          (if hc_id c = conversationId then Some (Some 0)
           else map_option (map_option Suc) (findIndex_h h conversationId rest))
      | _ \<Rightarrow> None)"

fun spliceExisting_h :: "heap \<Rightarrow> jstring \<Rightarrow> nat list \<Rightarrow> (nat option \<times> heap) option" where
  "spliceExisting_h h conversationId [] = Some (None, h)"
| "spliceExisting_h h conversationId (section # rest) =
     (case cellAt h section of
        Some (GroupCell label items) \<Rightarrow>
          (case cellAt h items of
             Some (ConversationArray cs) \<Rightarrow>
               (case findIndex_h h conversationId cs of
                  Some (Some index) \<Rightarrow>
                    Some (Some (cs ! index),
                          h[items := ConversationArray (take index cs @ drop (Suc index) cs)])
                | Some None \<Rightarrow> spliceExisting_h h conversationId rest
                | None \<Rightarrow> None)
           | _ \<Rightarrow> None)
      | _ \<Rightarrow> None)"

text \<open>
  The rest of the function. The updater is a function on values: it is applied to the
  value of the summary removed (or to \<open>null\<close>) and its result is stored as a new object.
  \<open>next.push\<close> overwrites the array of groups in place, the \<open>filter\<close> builds a new array,
  and the assignment overwrites the first group object in place.
\<close>

fun filterOthers_h :: "heap \<Rightarrow> jstring \<Rightarrow> nat list \<Rightarrow> nat list option" where
  "filterOthers_h h updatedId [] = Some []"
| "filterOthers_h h updatedId (conversation # rest) =
     (case cellAt h conversation of
        Some (ConversationCell c) \<Rightarrow>
          map_option (\<lambda>kept. if hc_id c \<noteq> updatedId then conversation # kept else kept)
            (filterOthers_h h updatedId rest)
      | _ \<Rightarrow> None)"

definition existingValue :: "heap \<Rightarrow> nat option \<Rightarrow> HistoryConversation option option" where
  "existingValue h existing =
     (case existing of
        None \<Rightarrow> Some None
      | Some r \<Rightarrow> (case cellAt h r of Some (ConversationCell c) \<Rightarrow> Some (Some c) | _ \<Rightarrow> None))"

definition pushDefaultGroup :: "heap \<Rightarrow> nat \<Rightarrow> nat list \<Rightarrow> nat list \<times> heap" where
  "pushDefaultGroup h next sections =
     (if length sections = 0
      then (case alloc h (ConversationArray []) of
              (array, h1) \<Rightarrow>
                (case alloc h1 (GroupCell (lit ''Today'') array) of
                   (section, h2) \<Rightarrow>
                     (sections @ [section], h2[next := GroupArray (sections @ [section])])))
      else (sections, h))"

definition setFirstConversations :: "heap \<Rightarrow> nat \<Rightarrow> nat \<Rightarrow> jstring \<Rightarrow> heap option" where
  "setFirstConversations h first updated updatedId =
     (case cellAt h first of
        Some (GroupCell label items) \<Rightarrow>
          (case cellAt h items of
             Some (ConversationArray cs) \<Rightarrow>
               (case filterOthers_h h updatedId cs of
                  Some kept \<Rightarrow>
                    (case alloc h (ConversationArray (updated # kept)) of
                       (array, h1) \<Rightarrow> Some (h1[first := GroupCell label array]))
                | None \<Rightarrow> None)
           | _ \<Rightarrow> None)
      | _ \<Rightarrow> None)"

definition promoteConversation_h ::
    "heap \<Rightarrow> nat \<Rightarrow> jstring \<Rightarrow> (HistoryConversation option \<Rightarrow> HistoryConversation) \<Rightarrow>
     (nat \<times> heap) option" where
  "promoteConversation_h h groups conversationId updater =
     (case cloneHistoryGroups_h h groups of
        Some (next, h1) \<Rightarrow>
          (case cellAt h1 next of
             Some (GroupArray sections) \<Rightarrow>
               (case spliceExisting_h h1 conversationId sections of
                  Some (existing, h2) \<Rightarrow>
                    (case existingValue h2 existing of
                       Some e \<Rightarrow>
                         (case alloc h2 (ConversationCell (updater e)) of
                            (updated, h3) \<Rightarrow>
                              (case pushDefaultGroup h3 next sections of
                                 (sections', h4) \<Rightarrow>
                                   (case setFirstConversations h4 (hd sections') updated (hc_id (updater e)) of
                                      Some h5 \<Rightarrow> Some (next, h5)
                                    | None \<Rightarrow> None)))
                     | None \<Rightarrow> None)
                | None \<Rightarrow> None)
           | _ \<Rightarrow> None)
      | None \<Rightarrow> None)"

text \<open>
  The index that a reference denotes in a store, and the sample store that holds the
  seed history at reference 9.
\<close>

fun readConversations :: "heap \<Rightarrow> nat list \<Rightarrow> HistoryConversation list option" where
  "readConversations h [] = Some []"
| "readConversations h (r # rs) =
     (case cellAt h r of
        Some (ConversationCell c) \<Rightarrow> map_option ((#) c) (readConversations h rs)
      | _ \<Rightarrow> None)"

definition arrayOf :: "heap \<Rightarrow> nat \<Rightarrow> nat option" where
  "arrayOf h g = (case cellAt h g of Some (GroupCell label a) \<Rightarrow> Some a | _ \<Rightarrow> None)"

definition readSection :: "heap \<Rightarrow> nat \<Rightarrow> HistoryGroup option" where
  "readSection h g =
     (case cellAt h g of
        Some (GroupCell label a) \<Rightarrow>
          (case cellAt h a of
             Some (ConversationArray cs) \<Rightarrow>
               map_option (\<lambda>vs. \<lparr>hg_label = label, hg_conversations = vs\<rparr>) (readConversations h cs)
           | _ \<Rightarrow> None)
      | _ \<Rightarrow> None)"

fun readSections :: "heap \<Rightarrow> nat list \<Rightarrow> HistoryGroup list option" where
  "readSections h [] = Some []"
| "readSections h (g # gs) =
     (case readSection h g of
        Some s \<Rightarrow> map_option ((#) s) (readSections h gs)
      | None \<Rightarrow> None)"

definition readGroups :: "heap \<Rightarrow> nat \<Rightarrow> HistoryGroup list option" where
  "readGroups h r = (case cellAt h r of Some (GroupArray gs) \<Rightarrow> readSections h gs | _ \<Rightarrow> None)"

definition owned :: "nat \<Rightarrow> heap \<Rightarrow> nat list \<Rightarrow> bool" where
  "owned b h gs \<longleftrightarrow>
     distinct gs \<and> list_all (\<lambda>g. b \<le> g) gs
     \<and> distinct (map (\<lambda>g. the (arrayOf h g)) gs)
     \<and> list_all (\<lambda>g. b \<le> the (arrayOf h g)) gs"

definition seedHeap :: heap where
  "seedHeap = map ConversationCell (allSummaries historySeed)
     @ [ConversationArray [0, 1, 2], ConversationArray [3, 4],
        GroupCell (lit ''Today'') 5, GroupCell (lit ''Earlier this week'') 6,
        GroupArray [7, 8]]"

section \<open>The attachment buffer on an explicit store\<close>

text \<open>
  In the state above the buffer and the attachments of a message are values, so that a
  message cannot share an object with the buffer. Whether the source shares one depends
  on what \<open>handleSubmit\<close> stores, so the buffer is modelled a second time on a store of
  objects: an attachment object, and an array of references to attachment objects. A
  reference is an index into the store and allocation appends a cell. A result of
  \<open>None\<close> is a reference that does not point to an object of the kind the code
  expects, which the types of the source exclude.
\<close>

datatype attachmentCell =
    AttachmentObject Attachment
  | AttachmentArray "nat list"

type_synonym attachmentStore = "attachmentCell list"

definition objectAt :: "attachmentStore \<Rightarrow> nat \<Rightarrow> Attachment option" where
  "objectAt h r =
     (if r < length h
      then (case h ! r of AttachmentObject a \<Rightarrow> Some a | AttachmentArray rs \<Rightarrow> None)
      else None)"

definition arrayAt :: "attachmentStore \<Rightarrow> nat \<Rightarrow> nat list option" where
  "arrayAt h r =
     (if r < length h
      then (case h ! r of AttachmentObject a \<Rightarrow> None | AttachmentArray rs \<Rightarrow> Some rs)
      else None)"

definition newCell :: "attachmentStore \<Rightarrow> attachmentCell \<Rightarrow> nat \<times> attachmentStore" where
  "newCell h c = (length h, h @ [c])"

text \<open>
  \<open>composerAttachments.map((attachment) => ({ ...attachment }))\<close>: a new object for
  every staged attachment, in order, and a new array of the references to them. The
  reference returned is the value of \<open>attachments\<close>, which the user message stores when
  the array is not empty.
\<close>

fun copyAttachments_h :: "attachmentStore \<Rightarrow> nat list \<Rightarrow> (nat list \<times> attachmentStore) option" where
  "copyAttachments_h h [] = Some ([], h)"
| "copyAttachments_h h (attachment # rest) =
     (case objectAt h attachment of
        None \<Rightarrow> None
      | Some a \<Rightarrow>
          (case newCell h (AttachmentObject (copyAttachment a)) of
             (copy, h1) \<Rightarrow>
               (case copyAttachments_h h1 rest of
                  None \<Rightarrow> None
                | Some (copies, h2) \<Rightarrow> Some (copy # copies, h2))))"

definition drainAttachments_h :: "attachmentStore \<Rightarrow> nat \<Rightarrow> (nat \<times> attachmentStore) option" where
  "drainAttachments_h h buffer =
     (case arrayAt h buffer of
        None \<Rightarrow> None
      | Some staged \<Rightarrow>
          (case copyAttachments_h h staged of
             None \<Rightarrow> None
           | Some (copies, h1) \<Rightarrow> Some (newCell h1 (AttachmentArray copies))))"

text \<open>
  The three updates of the buffer. Reading a file builds a new array of the previous
  references and of the reference to a new object (\<open>[...previous, {...}]\<close>); removing
  builds a new array of the references that \<open>filter\<close> keeps; clearing builds a new empty
  array (\<open>setComposerAttachments([])\<close>). Each returns the reference that becomes the
  value of \<open>composerAttachments\<close>.
\<close>

definition stageAttachment_h ::
    "jstring \<Rightarrow> FileInfo \<Rightarrow> jstring \<Rightarrow> attachmentStore \<Rightarrow> nat \<Rightarrow> (nat \<times> attachmentStore) option" where
  "stageAttachment_h newId file dataUrl h buffer =
     (case arrayAt h buffer of
        None \<Rightarrow> None
      | Some previous \<Rightarrow>
          (case newCell h (AttachmentObject
                  \<lparr>att_id = newId,
                   att_name = (if file_name file \<noteq> [] then file_name file
                               else lit ''pasted-image-'' @ showNat (length previous + 1) @ lit ''.png''),
                   att_type = file_type file,
                   att_size = file_size file,
                   att_preview = dataUrl\<rparr>) of
             (added, h1) \<Rightarrow> Some (newCell h1 (AttachmentArray (previous @ [added])))))"

fun keepOthers_h :: "attachmentStore \<Rightarrow> jstring \<Rightarrow> nat list \<Rightarrow> nat list option" where
  "keepOthers_h h attachmentId [] = Some []"
| "keepOthers_h h attachmentId (attachment # rest) =
     (case objectAt h attachment of
        None \<Rightarrow> None
      | Some a \<Rightarrow>
          map_option (\<lambda>kept. if att_id a \<noteq> attachmentId then attachment # kept else kept)
            (keepOthers_h h attachmentId rest))"

definition removeAttachment_h :: "jstring \<Rightarrow> attachmentStore \<Rightarrow> nat \<Rightarrow> (nat \<times> attachmentStore) option" where
  "removeAttachment_h attachmentId h buffer =
     (case arrayAt h buffer of
        None \<Rightarrow> None
      | Some previous \<Rightarrow>
          (case keepOthers_h h attachmentId previous of
             None \<Rightarrow> None
           | Some kept \<Rightarrow> Some (newCell h (AttachmentArray kept))))"

definition clearAttachments_h :: "attachmentStore \<Rightarrow> nat \<times> attachmentStore" where
  "clearAttachments_h h = newCell h (AttachmentArray [])"

text \<open>
  What an event does to the buffer on the store, next to \<open>step\<close>: the state is the one
  before the event, the pair is the reference held by \<open>composerAttachments\<close> and the
  store. An accepted submit copies the staged attachments and clears the buffer; a new
  chat and a selection clear it; the other events leave the buffer and the store as they
  are.
\<close>

fun step_h ::
    "(nat \<Rightarrow> jstring) \<Rightarrow> Event \<Rightarrow> State \<Rightarrow> nat \<times> attachmentStore \<Rightarrow> (nat \<times> attachmentStore) option" where
  "step_h rnd (FileLoaded file result) s (buffer, h) =
     (case result of
        None \<Rightarrow> Some (buffer, h)
      | Some dataUrl \<Rightarrow> stageAttachment_h (createId (rnd (draws s))) file dataUrl h buffer)"
| "step_h rnd (RemoveAttachment attachmentId) s (buffer, h) = removeAttachment_h attachmentId h buffer"
| "step_h rnd Submit s (buffer, h) =
     (if \<not> hasPendingInput s \<or> isGenerating s then Some (buffer, h)
      else (case drainAttachments_h h buffer of
              None \<Rightarrow> None
            | Some (attachments, h1) \<Rightarrow> Some (clearAttachments_h h1)))"
| "step_h rnd NewChat s (buffer, h) = Some (clearAttachments_h h)"
| "step_h rnd (SelectConversation conversation) s (buffer, h) = Some (clearAttachments_h h)"
| "step_h rnd e s (buffer, h) = Some (buffer, h)"

fun run_h ::
    "(nat \<Rightarrow> jstring) \<Rightarrow> Event list \<Rightarrow> State \<Rightarrow> nat \<times> attachmentStore \<Rightarrow> (nat \<times> attachmentStore) option" where
  "run_h rnd [] s bh = Some bh"
| "run_h rnd (e # es) s bh =
     (case step_h rnd e s bh of
        None \<Rightarrow> None
      | Some bh' \<Rightarrow> run_h rnd es (step rnd e s) bh')"

text \<open>
  The attachments that a reference denotes in a store, the cells that an array of
  attachments occupies (the array and its objects), and what the steps keep: the buffer
  denotes the buffer of the state and shares no cell with a given set of cells, all of
  which exist. The sample store holds the buffer of \<open>sampleStaged\<close> at reference 2, and
  the sample events stage an attachment, remove it, start a new chat and select a
  conversation.
\<close>

fun readObjects :: "attachmentStore \<Rightarrow> nat list \<Rightarrow> Attachment list option" where
  "readObjects h [] = Some []"
| "readObjects h (r # rs) =
     (case objectAt h r of
        None \<Rightarrow> None
      | Some a \<Rightarrow> map_option ((#) a) (readObjects h rs))"

definition readAttachments :: "attachmentStore \<Rightarrow> nat \<Rightarrow> Attachment list option" where
  "readAttachments h r = (case arrayAt h r of None \<Rightarrow> None | Some rs \<Rightarrow> readObjects h rs)"

definition cellsOf :: "attachmentStore \<Rightarrow> nat \<Rightarrow> nat list" where
  "cellsOf h r = (case arrayAt h r of None \<Rightarrow> [r] | Some rs \<Rightarrow> r # rs)"

definition bufferApart :: "nat set \<Rightarrow> State \<Rightarrow> nat \<times> attachmentStore \<Rightarrow> bool" where
  "bufferApart D s bh \<longleftrightarrow>
     readAttachments (snd bh) (fst bh) = Some (composerAttachments s)
     \<and> (\<forall>a \<in> D. a < length (snd bh))
     \<and> set (cellsOf (snd bh) (fst bh)) \<inter> D = {}"

definition sampleStore :: attachmentStore where
  "sampleStore =
     [AttachmentArray [],
      AttachmentObject \<lparr>att_id = lit ''7'', att_name = lit ''shot.png'', att_type = lit ''image/png'',
        att_size = 2048, att_preview = lit ''data:image/png;base64,AAAA''\<rparr>,
      AttachmentArray [1]]"

definition sampleLater :: "Event list" where
  "sampleLater =
     [FileLoaded \<lparr>file_name = [], file_type = lit ''image/jpeg'', file_size = 9\<rparr>
        (Some (lit ''data:image/jpeg;base64,BBBB'')),
      RemoveAttachment (lit ''10''), NewChat, SelectConversation sampleSeedEntry]"

section \<open>Lemmas about the handlers\<close>

lemma copyAttachment_id [simp]: "copyAttachment a = a"
  by (simp add: copyAttachment_def)

lemma map_copyAttachment [simp]: "map copyAttachment xs = xs"
  by (induction xs) simp_all

lemma conversationOf_update:
  "conversationOf (s\<lparr>conversations := updateConversationMessages c f (conversations s)\<rparr>) c' =
     (if c' = c then f (conversationOf s c) else conversationOf s c')"
  by (simp add: conversationOf_def updateConversationMessages_def)

lemma conversationOf_handleSubmit:
  "hasPendingInput s \<Longrightarrow> \<not> isGenerating s \<Longrightarrow>
   conversationOf (handleSubmit rnd s) c =
     (if c = activeConversationId s
      then conversationOf s c @
          [\<lparr>msg_id = createId (rnd (draws s)), msg_role = User, msg_name = lit ''You'',
               msg_avatarFallback = lit ''YO'', msg_avatarUrl = None,
               msg_content = userContent (trim (input s)) (map copyAttachment (composerAttachments s)), msg_markdown = None,
               msg_attachments = (if composerAttachments s \<noteq> [] then Some (map copyAttachment (composerAttachments s)) else None),
               msg_reaction = None\<rparr>]
      else conversationOf s c)"
  by (simp add: handleSubmit_def Let_def conversationOf_def updateConversationMessages_def)

lemma messages_conversationOf: "messages s = conversationOf s (activeConversationId s)"
  by (simp add: messages_def conversationOf_def)

lemma messages_toggleReaction:
  "messages (toggleReaction messageId reaction s) = toggleMessages messageId reaction (messages s)"
  by (simp add: toggleReaction_def messages_def updateConversationMessages_def Let_def)

lemma conversationOf_toggleReaction:
  "conversationOf (toggleReaction messageId reaction s) c =
     (if c = activeConversationId s then toggleMessages messageId reaction (conversationOf s c)
      else conversationOf s c)"
  by (simp add: toggleReaction_def conversationOf_def updateConversationMessages_def Let_def)

lemma length_toggleMessages [simp]: "length (toggleMessages messageId reaction ms) = length ms"
  by (simp add: toggleMessages_def)

lemma nth_toggleMessages:
  "i < length ms \<Longrightarrow>
   toggleMessages messageId reaction ms ! i =
     (if msg_id (ms ! i) = messageId
      then (ms ! i)\<lparr>msg_reaction := (if msg_reaction (ms ! i) = Some reaction then None else Some reaction)\<rparr>
      else ms ! i)"
  by (simp add: toggleMessages_def)

lemma toggleMessages_absent:
  "messageId \<notin> msg_id ` set ms \<Longrightarrow> toggleMessages messageId reaction ms = ms"
  unfolding toggleMessages_def by (rule map_idI) auto

subsection \<open>The first render\<close>

lemma initial_fields:
  "\<not> isGenerating (initialState rnd)" "nextTimer (initialState rnd) = 0"
  "replyTimers (initialState rnd) = []" "composerAttachments (initialState rnd) = []"
  "input (initialState rnd) = []"
  by (simp_all add: initialState_def split: prod.split)

lemma initial_conversations:
  "conversations (initialState rnd) =
     [lit ''today-1'' \<mapsto> createInitialMessages rnd 0,
      lit ''today-2'' \<mapsto> createPlaceholderConversation rnd 3 (lit ''Onboarding survey'')
         (lit ''Outlined questions that capture first-week friction and success signals.''),
      lit ''today-3'' \<mapsto> createPlaceholderConversation rnd 4 (lit ''Design critique notes'')
         (lit ''Summarised feedback threads and grouped by priority / owner.''),
      lit ''week-1'' \<mapsto> createPlaceholderConversation rnd 5 (lit ''Support triage ideas'')
         (lit ''Generated macros for the top friction requests from this week.''),
      lit ''week-2'' \<mapsto> createPlaceholderConversation rnd 6 (lit ''Growth experiment doc'')
         (lit ''Mapped out hypotheses, guardrail metrics, and rollout cadence.'')]"
proof -
  have ne: "lit ''today-2'' \<noteq> lit ''today-1''" "lit ''today-3'' \<noteq> lit ''today-1''"
    "lit ''week-1'' \<noteq> lit ''today-1''" "lit ''week-2'' \<noteq> lit ''today-1''"
    by (simp_all add: lit_def)
  show ?thesis
    using ne
    by (simp add: initialState_def buildInitialConversationMap_def primaryIdOf_def historySeed_def
          messageTemplates_def eval_nat_numeral)
qed

lemma initial_active:
  "activeConversationId (initialState rnd) = lit ''today-1''"
  "activeConversationTitle (initialState rnd) = lit ''Product launch prep''"
  "draws (initialState rnd) = 7"
  "chatCounter (initialState rnd) = 6"
  "selectedProviderId (initialState rnd) = lit ''openai''"
  "selectedModelId (initialState rnd) = lit ''gpt-4o''"
  "historyGroups (initialState rnd) = historySeed"
proof -
  have ne: "lit ''today-2'' \<noteq> lit ''today-1''" "lit ''today-3'' \<noteq> lit ''today-1''"
    "lit ''week-1'' \<noteq> lit ''today-1''" "lit ''week-2'' \<noteq> lit ''today-1''"
    by (simp_all add: lit_def)
  show "activeConversationId (initialState rnd) = lit ''today-1''"
    by (simp add: initialState_def seedActiveConversationId_def primaryIdOf_def historySeed_def
          split: prod.split)
  show "activeConversationTitle (initialState rnd) = lit ''Product launch prep''"
    by (simp add: initialState_def seedActiveConversationTitle_def seedActiveConversationId_def
          primaryIdOf_def historySeed_def split: prod.split)
  show "draws (initialState rnd) = 7"
    using ne
    by (simp add: initialState_def buildInitialConversationMap_def primaryIdOf_def historySeed_def
          messageTemplates_def)
  show "chatCounter (initialState rnd) = 6"
    by (simp add: initialState_def historySeed_def split: prod.split)
  show "selectedProviderId (initialState rnd) = lit ''openai''"
    by (simp add: initialState_def providers_def split: prod.split)
  show "selectedModelId (initialState rnd) = lit ''gpt-4o''"
    by (simp add: initialState_def providers_def split: prod.split)
  show "historyGroups (initialState rnd) = historySeed"
    by (simp add: initialState_def cloneHistoryGroups_def historySeed_def split: prod.split)
qed

lemma messages_initial: "messages (initialState rnd) = createInitialMessages rnd 0"
proof -
  have ne: "lit ''today-2'' \<noteq> lit ''today-1''" "lit ''today-3'' \<noteq> lit ''today-1''"
    "lit ''week-1'' \<noteq> lit ''today-1''" "lit ''week-2'' \<noteq> lit ''today-1''"
    by (simp_all add: lit_def)
  show ?thesis using ne by (simp add: messages_def initial_conversations initial_active)
qed

lemma createId_sampleDraws: "n < 10 \<Longrightarrow> createId (sampleDraws n) = [48 + n]"
  by (simp add: createId_def sampleDraws_def lit_def showNat.simps)

lemma sampleTyped_facts:
  "reachable sampleDraws sampleTyped" "hasPendingInput sampleTyped" "\<not> isGenerating sampleTyped"
  "nextTimer sampleTyped = 0"
proof -
  show "reachable sampleDraws sampleTyped"
    unfolding reachable_def sampleTyped_def by (rule exI) (rule refl)
  show "hasPendingInput sampleTyped"
    by (simp add: sampleTyped_def hasPendingInput_def trim_def lit_def isWhiteSpace_def)
  show "\<not> isGenerating sampleTyped" by (simp add: sampleTyped_def initial_fields)
  show "nextTimer sampleTyped = 0" by (simp add: sampleTyped_def initial_fields)
qed

lemma active_sampleTyped:
  "activeProvider sampleTyped = hd providers" "activeModel sampleTyped = hd (po_models (hd providers))"
proof -
  show p: "activeProvider sampleTyped = hd providers"
    by (simp add: activeProvider_def sampleTyped_def initial_active providers_def)
  show "activeModel sampleTyped = hd (po_models (hd providers))"
    unfolding activeModel_def p
    by (simp add: sampleTyped_def initial_active providers_def)
qed

lemma sampleStaged_facts:
  "hasPendingInput sampleStaged" "\<not> isGenerating sampleStaged" "trim (input sampleStaged) = []"
  "length (composerAttachments sampleStaged) = 1"
  by (simp_all add: sampleStaged_def addAttachmentFromFile_def initial_fields hasPendingInput_def trim_def)

subsection \<open>Timers\<close>

lemma map_of_filter_other:
  "h \<noteq> h' \<Longrightarrow> map_of (filter (\<lambda>t. fst t \<noteq> h') xs) h = map_of xs h"
  by (induction xs) auto

lemma map_of_filter_same: "map_of (filter (\<lambda>t. fst t \<noteq> h) xs) h = None"
  by (induction xs) auto

lemma map_of_snoc_keep: "map_of xs h = Some x \<Longrightarrow> map_of (xs @ [p]) h = Some x"
  by (simp add: map_add_Some_iff)

lemma replyTimers_step:
  "map_of (replyTimers s) h = Some x \<Longrightarrow> e \<noteq> ReplyTimeout h \<Longrightarrow>
   map_of (replyTimers (step rnd e s)) h = Some x"
proof (cases e)
  case (ReplyTimeout h')
  assume a: "map_of (replyTimers s) h = Some x" "e \<noteq> ReplyTimeout h"
  with ReplyTimeout have "h \<noteq> h'" by simp
  with a ReplyTimeout show ?thesis
    by (simp add: replyTimeout_def map_of_filter_other split: option.split prod.split)
next
  case Submit
  assume "map_of (replyTimers s) h = Some x"
  with Submit show ?thesis
    by (simp add: handleSubmit_def Let_def map_of_snoc_keep)
next
  case (FileLoaded f r)
  assume "map_of (replyTimers s) h = Some x"
  with FileLoaded show ?thesis
    by (simp add: addAttachmentFromFile_def split: option.split)
next
  case (CopyTimeout k)
  assume "map_of (replyTimers s) h = Some x"
  with CopyTimeout show ?thesis
    by (simp add: copyTimeout_def split: option.split)
qed (simp_all add: handleRemoveAttachment_def handleCopyResolved_def handleCopyRejected_def
       toggleReaction_def handleNewChat_def handleSelectConversation_def selectProvider_def Let_def)

lemma replyTimers_run:
  "map_of (replyTimers s) h = Some x \<Longrightarrow> ReplyTimeout h \<notin> set evs \<Longrightarrow>
   map_of (replyTimers (run rnd evs s)) h = Some x"
proof (induction evs arbitrary: s)
  case Nil
  then show ?case by simp
next
  case (Cons e es)
  from Cons.prems have "map_of (replyTimers (step rnd e s)) h = Some x"
    by (intro replyTimers_step) auto
  with Cons show ?case by simp
qed

lemma handlesBelow_step: "handlesBelow s \<Longrightarrow> handlesBelow (step rnd e s)"
proof (cases e)
  case (ReplyTimeout h)
  assume "handlesBelow s"
  with ReplyTimeout show ?thesis
    by (auto simp add: handlesBelow_def replyTimeout_def split: option.split prod.split)
next
  case Submit
  assume "handlesBelow s"
  with Submit show ?thesis
    by (auto simp add: handlesBelow_def handleSubmit_def Let_def less_Suc_eq)
next
  case (FileLoaded f r)
  assume "handlesBelow s"
  with FileLoaded show ?thesis
    by (simp add: handlesBelow_def addAttachmentFromFile_def split: option.split)
next
  case (CopyTimeout k)
  assume "handlesBelow s"
  with CopyTimeout show ?thesis
    by (simp add: handlesBelow_def copyTimeout_def split: option.split)
next
  case (CopyResolved m)
  assume "handlesBelow s"
  with CopyResolved show ?thesis
    by (auto simp add: handlesBelow_def handleCopyResolved_def less_Suc_eq)
qed (simp_all add: handlesBelow_def handleRemoveAttachment_def handleCopyRejected_def
       toggleReaction_def handleNewChat_def handleSelectConversation_def selectProvider_def Let_def)

lemma handlesBelow_run: "handlesBelow s \<Longrightarrow> handlesBelow (run rnd evs s)"
  by (induction evs arbitrary: s) (simp_all add: handlesBelow_step)

lemma handlesBelow_initial: "handlesBelow (initialState rnd)"
  by (simp add: handlesBelow_def initialState_def split: prod.split)

lemma reachable_handlesBelow: "reachable rnd s \<Longrightarrow> handlesBelow s"
  by (auto simp add: reachable_def handlesBelow_run handlesBelow_initial)

lemma handlesBelow_fresh: "handlesBelow s \<Longrightarrow> map_of (replyTimers s) (nextTimer s) = None"
  by (auto simp add: handlesBelow_def map_of_eq_None_iff)

lemma replyTimers_handleSubmit:
  assumes "handlesBelow s" "hasPendingInput s" "\<not> isGenerating s"
  shows "map_of (replyTimers (handleSubmit rnd s)) (nextTimer s) =
     Some (activeConversationId s,
           \<lparr>msg_id = createId (rnd (Suc (draws s))), msg_role = Assistant, msg_name = lit ''Nova'',
            msg_avatarFallback = lit ''NO'', msg_avatarUrl = None,
            msg_content = assistantContent (providerSummary s) (map copyAttachment (composerAttachments s)),
            msg_markdown = Some True, msg_attachments = None, msg_reaction = None\<rparr>)"
  using assms handlesBelow_fresh [OF assms(1)]
  by (simp add: handleSubmit_def Let_def map_add_def)

lemma spent_step: "spent h s \<Longrightarrow> spent h (step rnd e s)"
proof (cases e)
  case (ReplyTimeout h')
  assume "spent h s"
  with ReplyTimeout show ?thesis
    by (cases "h = h'")
       (auto simp add: spent_def replyTimeout_def map_of_filter_other map_of_filter_same
             split: option.split prod.split)
next
  case Submit
  assume "spent h s"
  with Submit show ?thesis
    by (auto simp add: spent_def handleSubmit_def Let_def map_add_def)
next
  case (FileLoaded f r)
  assume "spent h s"
  with FileLoaded show ?thesis
    by (simp add: spent_def addAttachmentFromFile_def split: option.split)
next
  case (CopyTimeout k)
  assume "spent h s"
  with CopyTimeout show ?thesis
    by (simp add: spent_def copyTimeout_def split: option.split)
next
  case (CopyResolved m)
  assume "spent h s"
  with CopyResolved show ?thesis
    by (auto simp add: spent_def handleCopyResolved_def)
qed (simp_all add: spent_def handleRemoveAttachment_def handleCopyRejected_def
       toggleReaction_def handleNewChat_def handleSelectConversation_def selectProvider_def Let_def)

lemma spent_run: "spent h s \<Longrightarrow> spent h (run rnd evs s)"
  by (induction evs arbitrary: s) (simp_all add: spent_step)

lemma spent_noop: "spent h s \<Longrightarrow> replyTimeout h s = s"
  by (simp add: spent_def replyTimeout_def)

lemma nextTimer_step: "nextTimer s \<le> nextTimer (step rnd e s)"
  by (cases e)
     (simp_all add: handleRemoveAttachment_def handleCopyResolved_def handleCopyRejected_def
        toggleReaction_def handleNewChat_def handleSelectConversation_def selectProvider_def Let_def
        replyTimeout_def handleSubmit_def addAttachmentFromFile_def copyTimeout_def
        split: option.split prod.split)

lemma nextTimer_run: "nextTimer s \<le> nextTimer (run rnd evs s)"
proof (induction evs arbitrary: s)
  case Nil
  show ?case by simp
next
  case (Cons e es)
  have "nextTimer s \<le> nextTimer (step rnd e s)" by (rule nextTimer_step)
  also have "\<dots> \<le> nextTimer (run rnd es (step rnd e s))" by (rule Cons.IH)
  finally show ?case by simp
qed

lemma replyTimeout_fire:
  assumes "map_of (replyTimers t) h = Some (c, m)"
  shows "conversationOf (replyTimeout h t) c' = (if c' = c then conversationOf t c @ [m] else conversationOf t c')"
    and "\<not> isGenerating (replyTimeout h t)"
    and "map_of (replyTimers (replyTimeout h t)) h = None"
    and "nextTimer (replyTimeout h t) = nextTimer t"
  using assms
  by (simp_all add: replyTimeout_def conversationOf_def updateConversationMessages_def
        map_of_filter_same)

lemma isGenerating_step:
  "isGenerating s \<Longrightarrow> \<not> resetsGenerating e \<Longrightarrow> isGenerating (step rnd e s)"
  by (cases e)
     (simp_all add: handleRemoveAttachment_def handleCopyResolved_def handleCopyRejected_def
        toggleReaction_def selectProvider_def Let_def handleSubmit_def addAttachmentFromFile_def
        copyTimeout_def split: option.split)

lemma isGenerating_run:
  "isGenerating s \<Longrightarrow> \<forall>e \<in> set evs. \<not> resetsGenerating e \<Longrightarrow> isGenerating (run rnd evs s)"
  by (induction evs arbitrary: s) (simp_all add: isGenerating_step)

lemma isGenerating_handleSubmit:
  "hasPendingInput s \<Longrightarrow> \<not> isGenerating s \<Longrightarrow> isGenerating (handleSubmit rnd s)"
  by (simp add: handleSubmit_def Let_def)

lemma createId_nth: "length r \<ge> 10 \<Longrightarrow> i < 8 \<Longrightarrow> createId r ! i = r ! (i + 2)"
  by (simp add: createId_def add.commute)

lemma createId_length: "length (createId r) \<le> 8"
  by (simp add: createId_def)

subsection \<open>Promotion\<close>

lemma cloneHistoryGroups_id [simp]: "cloneHistoryGroups groups = groups"
  unfolding cloneHistoryGroups_def by (rule map_idI) (simp add: map_idI)

lemma findIndex_None_iff: "findIndex P xs = None \<longleftrightarrow> (\<forall>x \<in> set xs. \<not> P x)"
  by (induction xs) auto

lemma findIndex_Some:
  "findIndex P xs = Some i \<Longrightarrow> i < length xs \<and> P (xs ! i) \<and> (\<forall>j < i. \<not> P (xs ! j))"
proof (induction xs arbitrary: i)
  case Nil
  then show ?case by simp
next
  case (Cons x xs)
  show ?case
  proof (cases "P x")
    case True
    with Cons.prems show ?thesis by simp
  next
    case False
    with Cons.prems obtain k where k: "findIndex P xs = Some k" "i = Suc k" by auto
    from Cons.IH [OF k(1)] False k(2) show ?thesis
      by (auto simp add: nth_Cons split: nat.split)
  qed
qed

lemma find_None_absent: "find P xs = None \<longleftrightarrow> (\<forall>x \<in> set xs. \<not> P x)"
  by (induction xs) auto

lemma splice_distinct:
  "distinct (map hc_id cs) \<Longrightarrow> findIndex (\<lambda>c. hc_id c = cid) cs = Some i \<Longrightarrow>
   take i cs @ drop (Suc i) cs = filter (\<lambda>c. hc_id c \<noteq> cid) cs
   \<and> find (\<lambda>c. hc_id c = cid) cs = Some (cs ! i)"
proof (induction cs arbitrary: i)
  case Nil
  then show ?case by simp
next
  case (Cons c cs)
  show ?case
  proof (cases "hc_id c = cid")
    case True
    with Cons.prems have i: "i = 0" by simp
    from Cons.prems(1) have "hc_id c \<notin> hc_id ` set cs" by simp
    with True have "\<forall>x \<in> set cs. hc_id x \<noteq> cid" by (metis imageI)
    then have "filter (\<lambda>c. hc_id c \<noteq> cid) cs = cs" by (simp add: filter_id_conv)
    with True i show ?thesis by simp
  next
    case False
    with Cons.prems obtain k where k: "findIndex (\<lambda>c. hc_id c = cid) cs = Some k" "i = Suc k" by auto
    from Cons.prems(1) have "distinct (map hc_id cs)" by simp
    from Cons.IH [OF this k(1)] False k(2) show ?thesis by simp
  qed
qed

lemma filter_absent: "cid \<notin> hc_id ` set cs \<Longrightarrow> filter (\<lambda>c. hc_id c \<noteq> cid) cs = cs"
  by (auto simp add: filter_id_conv)

lemma withoutId_absent: "cid \<notin> set (allIds groups) \<Longrightarrow> withoutId cid groups = groups"
proof -
  assume a: "cid \<notin> set (allIds groups)"
  have "\<And>g. g \<in> set groups \<Longrightarrow>
          g\<lparr>hg_conversations := filter (\<lambda>c. hc_id c \<noteq> cid) (hg_conversations g)\<rparr> = g"
  proof -
    fix g assume "g \<in> set groups"
    with a have "cid \<notin> hc_id ` set (hg_conversations g)"
      by (auto simp add: allIds_def allSummaries_def)
    then show "g\<lparr>hg_conversations := filter (\<lambda>c. hc_id c \<noteq> cid) (hg_conversations g)\<rparr> = g"
      by (simp add: filter_absent)
  qed
  then show ?thesis unfolding withoutId_def by (rule map_idI)
qed

lemma find_concat_absent:
  "\<forall>x \<in> set xs. \<not> P x \<Longrightarrow> find P (xs @ ys) = find P ys"
  by (induction xs) auto

lemma find_append_Some: "find P xs = Some x \<Longrightarrow> find P (xs @ ys) = Some x"
  by (induction xs) (auto split: if_splits)

lemma spliceExisting_distinct:
  "distinct (allIds groups) \<Longrightarrow>
   spliceExisting cid groups =
     (find (\<lambda>c. hc_id c = cid) (allSummaries groups), withoutId cid groups)"
proof (induction groups)
  case Nil
  show ?case by (simp add: allSummaries_def withoutId_def)
next
  case (Cons sec rest)
  from Cons.prems have d1: "distinct (map hc_id (hg_conversations sec))"
    and d2: "distinct (allIds rest)"
    and d3: "set (map hc_id (hg_conversations sec)) \<inter> set (allIds rest) = {}"
    by (simp_all add: allIds_def allSummaries_def)
  show ?case
  proof (cases "findIndex (\<lambda>c. hc_id c = cid) (hg_conversations sec)")
    case None
    then have absent: "\<forall>x \<in> set (hg_conversations sec). hc_id x \<noteq> cid"
      by (simp add: findIndex_None_iff)
    then have f: "filter (\<lambda>c. hc_id c \<noteq> cid) (hg_conversations sec) = hg_conversations sec"
      by (simp add: filter_id_conv)
    have fi: "find (\<lambda>c. hc_id c = cid) (allSummaries (sec # rest))
                = find (\<lambda>c. hc_id c = cid) (allSummaries rest)"
      using absent by (simp add: allSummaries_def find_concat_absent)
    show ?thesis
      using None Cons.IH [OF d2] f fi by (simp add: withoutId_def)
  next
    case (Some i)
    from splice_distinct [OF d1 Some]
    have sp: "take i (hg_conversations sec) @ drop (Suc i) (hg_conversations sec)
                = filter (\<lambda>c. hc_id c \<noteq> cid) (hg_conversations sec)"
      and fi: "find (\<lambda>c. hc_id c = cid) (hg_conversations sec) = Some (hg_conversations sec ! i)"
      by simp_all
    from findIndex_Some [OF Some] have "cid \<in> set (map hc_id (hg_conversations sec))"
      by (metis (mono_tags, lifting) image_eqI nth_mem set_map)
    with d3 have "cid \<notin> set (allIds rest)" by auto
    then have r: "withoutId cid rest = rest" by (rule withoutId_absent)
    have fa: "find (\<lambda>c. hc_id c = cid) (allSummaries (sec # rest)) = Some (hg_conversations sec ! i)"
      using fi by (simp add: allSummaries_def find_append_Some)
    show ?thesis
      using Some sp fa r by (simp add: withoutId_def)
  qed
qed

lemma promoteConversation_distinct:
  assumes "distinct (allIds groups)"
  shows "promoteConversation groups cid f =
     (let updated = f (find (\<lambda>c. hc_id c = cid) (allSummaries groups));
          next1 = (if groups = [] then [\<lparr>hg_label = lit ''Today'', hg_conversations = []\<rparr>]
                   else withoutId cid groups)
      in (hd next1)\<lparr>hg_conversations :=
            updated # filter (\<lambda>c. hc_id c \<noteq> hc_id updated) (hg_conversations (hd next1))\<rparr> # tl next1)"
  by (simp add: promoteConversation_def spliceExisting_distinct [OF assms] Let_def withoutId_def)

lemma allIds_Cons:
  "allIds (g # gs) = map hc_id (hg_conversations g) @ allIds gs"
  by (simp add: allIds_def allSummaries_def)

lemma ids_filter: "map hc_id (filter (\<lambda>c. hc_id c \<noteq> cid) cs) = removeAll cid (map hc_id cs)"
  by (induction cs) auto

lemma allIds_withoutId: "allIds (withoutId cid groups) = removeAll cid (allIds groups)"
  by (induction groups) (simp_all add: withoutId_def allIds_def allSummaries_def ids_filter)

lemma withoutId_Nil_iff: "withoutId cid groups = [] \<longleftrightarrow> groups = []"
  by (simp add: withoutId_def)

lemma find_Some_id: "find (\<lambda>c. hc_id c = cid) cs = Some e \<Longrightarrow> hc_id e = cid"
  by (induction cs) (auto split: if_splits)

lemma keepsId_found:
  assumes "keepsId cid f"
  shows "hc_id (f (find (\<lambda>c. hc_id c = cid) cs)) = cid"
proof (cases "find (\<lambda>c. hc_id c = cid) cs")
  case None
  with assms show ?thesis by (simp add: keepsId_def)
next
  case (Some e)
  then have "hc_id e = cid" by (rule find_Some_id)
  with assms Some show ?thesis by (simp add: keepsId_def)
qed

lemma allIds_promoteConversation:
  assumes "distinct (allIds groups)" and "keepsId cid f"
  shows "allIds (promoteConversation groups cid f) = cid # removeAll cid (allIds groups)"
proof -
  define u where "u = f (find (\<lambda>c. hc_id c = cid) (allSummaries groups))"
  have u: "hc_id u = cid"
    unfolding u_def using assms(2) by (rule keepsId_found)
  show ?thesis
  proof (cases groups)
    case Nil
    show ?thesis
      unfolding promoteConversation_distinct [OF assms(1)]
      using Nil u by (simp add: Let_def allIds_def allSummaries_def u_def)
  next
    case (Cons g gs)
    define n where "n = withoutId cid groups"
    have ne: "groups \<noteq> []" using Cons by simp
    have ids: "allIds n = removeAll cid (allIds groups)"
      unfolding n_def by (rule allIds_withoutId)
    then have absent: "cid \<notin> set (allIds n)" by simp
    obtain g' gs' where n: "n = g' # gs'"
      using Cons by (cases n) (simp_all add: n_def withoutId_def)
    have p: "promoteConversation groups cid f =
               g'\<lparr>hg_conversations := u # filter (\<lambda>c. hc_id c \<noteq> cid) (hg_conversations g')\<rparr> # gs'"
      unfolding promoteConversation_distinct [OF assms(1)] Let_def u_def [symmetric] n_def [symmetric]
      using ne n u by simp
    have "removeAll cid (map hc_id (hg_conversations g')) = map hc_id (hg_conversations g')"
      using absent n by (simp add: allIds_Cons)
    then have "allIds (promoteConversation groups cid f) = cid # allIds n"
      unfolding p using u n by (simp add: allIds_Cons ids_filter)
    with ids show ?thesis by simp
  qed
qed

lemma distinct_promoteConversation:
  assumes "distinct (allIds groups)" and "keepsId cid f"
  shows "distinct (allIds (promoteConversation groups cid f))"
    and "set (allIds (promoteConversation groups cid f)) = insert cid (set (allIds groups))"
  using assms(1) by (auto simp add: allIds_promoteConversation [OF assms] distinct_removeAll)

lemma promoteAll_ids:
  "distinct (allIds groups) \<Longrightarrow> list_all (\<lambda>call. keepsId (fst call) (snd call)) calls \<Longrightarrow>
   distinct (allIds (promoteAll groups calls))
   \<and> set (allIds (promoteAll groups calls)) = set (allIds groups) \<union> fst ` set calls"
proof (induction calls arbitrary: groups)
  case Nil
  then show ?case by simp
next
  case (Cons call calls)
  from Cons.prems have k: "keepsId (fst call) (snd call)"
    and ks: "list_all (\<lambda>call. keepsId (fst call) (snd call)) calls" by simp_all
  note d = distinct_promoteConversation [OF Cons.prems(1) k]
  from Cons.IH [OF d(1) ks] d(2) show ?case by auto
qed

lemma one_group_holds:
  "distinct (allIds groups) \<Longrightarrow> cid \<in> set (allIds groups) \<Longrightarrow>
   length (filter (holdsId cid) groups) = 1"
proof (induction groups)
  case Nil
  then show ?case by (simp add: allIds_def allSummaries_def)
next
  case (Cons g gs)
  from Cons.prems(1) have d: "distinct (allIds gs)"
    and disj: "set (map hc_id (hg_conversations g)) \<inter> set (allIds gs) = {}"
    by (simp_all add: allIds_Cons)
  have none: "cid \<notin> set (allIds gs) \<Longrightarrow> filter (holdsId cid) gs = []"
    by (auto simp add: filter_empty_conv holdsId_def allIds_def allSummaries_def)
  show ?case
  proof (cases "holdsId cid g")
    case True
    then have "cid \<notin> set (allIds gs)" using disj by (auto simp add: holdsId_def)
    with True none show ?thesis by simp
  next
    case False
    with Cons.prems(2) have "cid \<in> set (allIds gs)"
      by (auto simp add: allIds_Cons holdsId_def)
    with False Cons.IH [OF d] show ?thesis by simp
  qed
qed

lemma allIds_historySeed:
  "allIds historySeed = [lit ''today-1'', lit ''today-2'', lit ''today-3'', lit ''week-1'', lit ''week-2'']"
  by (simp add: allIds_def allSummaries_def historySeed_def)

lemma distinct_historySeed: "distinct (allIds historySeed)"
  by (simp add: allIds_historySeed lit_def)

lemma keepsId_constantSummary: "hc_id c = cid \<Longrightarrow> keepsId cid (constantSummary c)"
  by (simp add: keepsId_def constantSummary_def)

lemma allSummaries_withoutId:
  "allSummaries (withoutId cid groups) = filter (\<lambda>c. hc_id c \<noteq> cid) (allSummaries groups)"
  by (induction groups) (simp_all add: withoutId_def allSummaries_def)

lemma allSummaries_Cons: "allSummaries (g # gs) = hg_conversations g @ allSummaries gs"
  by (simp add: allSummaries_def)

lemma find_None_allIds:
  "find (\<lambda>c. hc_id c = cid) (allSummaries groups) = None \<longleftrightarrow> cid \<notin> set (allIds groups)"
  by (auto simp add: find_None_absent allIds_def)

lemma promoteConversation_explicit:
  assumes "distinct (allIds groups)"
  shows "promoteConversation groups cid f =
           (if groups = []
            then [\<lparr>hg_label = lit ''Today'', hg_conversations = [f None]\<rparr>]
            else (hd (withoutId cid groups))
                   \<lparr>hg_conversations :=
                      f (find (\<lambda>c. hc_id c = cid) (allSummaries groups))
                      # filter (\<lambda>c. hc_id c \<noteq> hc_id (f (find (\<lambda>c. hc_id c = cid) (allSummaries groups))))
                          (hg_conversations (hd (withoutId cid groups)))\<rparr>
                 # tl (withoutId cid groups))"
    unfolding promoteConversation_distinct [OF assms(1)] Let_def
    by (simp add: allSummaries_def)

lemma promoteConversation_hd:
  assumes "distinct (allIds groups)"
  shows "hd (hg_conversations (hd (promoteConversation groups cid f)))
           = f (find (\<lambda>c. hc_id c = cid) (allSummaries groups))"
proof (cases "groups = []")
  case True
  then show ?thesis
    unfolding promoteConversation_explicit [OF assms] by (simp add: allSummaries_def)
next
  case False
  then show ?thesis
    unfolding promoteConversation_explicit [OF assms] by simp
qed

lemma promoteConversation_tl:
  assumes "distinct (allIds groups)"
  shows "\<forall>c \<in> set (tl (allSummaries (promoteConversation groups cid f))). hc_id c \<noteq> cid"
proof (cases "groups = []")
  case True
  then show ?thesis
    unfolding promoteConversation_explicit [OF assms] by (simp add: allSummaries_def)
next
  case False
  define n where "n = withoutId cid groups"
  define u where "u = f (find (\<lambda>c. hc_id c = cid) (allSummaries groups))"
  from False obtain g gs where n': "n = g # gs"
    by (cases n) (simp_all add: n_def withoutId_def)
  have "allSummaries n = filter (\<lambda>c. hc_id c \<noteq> cid) (allSummaries groups)"
    unfolding n_def by (rule allSummaries_withoutId)
  then have "\<forall>c \<in> set (allSummaries n). hc_id c \<noteq> cid" by simp
  then have a: "\<forall>c \<in> set (hg_conversations g). hc_id c \<noteq> cid"
    and b: "\<forall>c \<in> set (allSummaries gs). hc_id c \<noteq> cid"
    by (simp_all add: n' allSummaries_Cons)
  have p: "promoteConversation groups cid f
             = g\<lparr>hg_conversations := u # filter (\<lambda>c. hc_id c \<noteq> hc_id u) (hg_conversations g)\<rparr> # gs"
    unfolding promoteConversation_explicit [OF assms] u_def [symmetric] n_def [symmetric]
    using False by (simp add: n')
  have "tl (allSummaries (promoteConversation groups cid f))
          = filter (\<lambda>c. hc_id c \<noteq> hc_id u) (hg_conversations g) @ allSummaries gs"
    unfolding p by (simp add: allSummaries_Cons)
  with a b show ?thesis by auto
qed

lemma promoteConversation_unfold:
  "promoteConversation G cid f =
     (case snd (spliceExisting cid G) of
        [] \<Rightarrow> [\<lparr>hg_label = lit ''Today'', hg_conversations = [f (fst (spliceExisting cid G))]\<rparr>]
      | s0 # G' \<Rightarrow>
          s0\<lparr>hg_conversations :=
               f (fst (spliceExisting cid G))
               # filter (\<lambda>c. hc_id c \<noteq> hc_id (f (fst (spliceExisting cid G)))) (hg_conversations s0)\<rparr>
          # G')"
  by (simp add: promoteConversation_def Let_def case_prod_beta split: list.split)

lemma findIndex_find: "findIndex P xs = Some i \<Longrightarrow> find P xs = Some (xs ! i)"
proof (induction xs arbitrary: i)
  case Nil
  then show ?case by simp
next
  case (Cons x xs)
  show ?case
  proof (cases "P x")
    case True
    with Cons.prems show ?thesis by simp
  next
    case False
    with Cons.prems obtain k where k: "findIndex P xs = Some k" "i = Suc k" by auto
    from Cons.IH [OF k(1)] False k(2) show ?thesis by simp
  qed
qed

lemma spliceExisting_fst:
  "fst (spliceExisting cid groups) = find (\<lambda>c. hc_id c = cid) (allSummaries groups)"
proof (induction groups)
  case Nil
  show ?case by (simp add: allSummaries_def)
next
  case (Cons g gs)
  show ?case
  proof (cases "findIndex (\<lambda>c. hc_id c = cid) (hg_conversations g)")
    case None
    then have "\<forall>x \<in> set (hg_conversations g). \<not> hc_id x = cid"
      by (simp add: findIndex_None_iff)
    then have "find (\<lambda>c. hc_id c = cid) (allSummaries (g # gs))
                 = find (\<lambda>c. hc_id c = cid) (allSummaries gs)"
      unfolding allSummaries_Cons by (rule find_concat_absent)
    with None Cons.IH show ?thesis by (simp add: case_prod_beta)
  next
    case (Some i)
    then have "find (\<lambda>c. hc_id c = cid) (hg_conversations g) = Some (hg_conversations g ! i)"
      by (rule findIndex_find)
    then have "find (\<lambda>c. hc_id c = cid) (allSummaries (g # gs)) = Some (hg_conversations g ! i)"
      unfolding allSummaries_Cons by (rule find_append_Some)
    with Some show ?thesis by simp
  qed
qed

lemma promoteConversation_front:
  "promoteConversation groups cid f \<noteq> []
   \<and> hd (hg_conversations (hd (promoteConversation groups cid f)))
       = f (find (\<lambda>c. hc_id c = cid) (allSummaries groups))"
  unfolding promoteConversation_unfold spliceExisting_fst
  by (simp split: list.split)

lemma promoteConversation_empty:
  "promoteConversation [] cid f = [\<lparr>hg_label = lit ''Today'', hg_conversations = [f None]\<rparr>]"
  by (simp add: promoteConversation_unfold)

subsection \<open>Promotion on the store\<close>

lemma cellAt_length: "cellAt h a = Some c \<Longrightarrow> a < length h"
  by (simp add: cellAt_def split: if_splits)

lemma cellAt_append: "cellAt h a = Some c \<Longrightarrow> cellAt (h @ e) a = Some c"
  by (simp add: cellAt_def nth_append split: if_splits)

lemma cellAt_new: "cellAt (h @ [c]) (length h) = Some c"
  by (simp add: cellAt_def)

lemma cellAt_update_same: "a < length h \<Longrightarrow> cellAt (h[a := c]) a = Some c"
  by (simp add: cellAt_def)

lemma cellAt_update_other: "b \<noteq> a \<Longrightarrow> cellAt (h[a := c]) b = cellAt h b"
  by (simp add: cellAt_def)

lemma readConversations_append:
  "readConversations h cs = Some vs \<Longrightarrow> readConversations (h @ e) cs = Some vs"
proof (induction cs arbitrary: vs)
  case Nil
  then show ?case by simp
next
  case (Cons r rs)
  from Cons.prems obtain c ws where r: "cellAt h r = Some (ConversationCell c)"
    and ws: "readConversations h rs = Some ws" and vs: "vs = c # ws"
    by (auto split: option.splits cell.splits)
  from r have "cellAt (h @ e) r = Some (ConversationCell c)" by (rule cellAt_append)
  with Cons.IH [OF ws] vs show ?case by simp
qed

lemma readConversations_update:
  "readConversations h cs = Some vs \<Longrightarrow> \<forall>v. cellAt h a \<noteq> Some (ConversationCell v) \<Longrightarrow>
   readConversations (h[a := c]) cs = Some vs"
proof (induction cs arbitrary: vs)
  case Nil
  then show ?case by simp
next
  case (Cons r rs)
  from Cons.prems(1) obtain v ws where r: "cellAt h r = Some (ConversationCell v)"
    and ws: "readConversations h rs = Some ws" and vs: "vs = v # ws"
    by (auto split: option.splits cell.splits)
  from r Cons.prems(2) have "r \<noteq> a" by auto
  then have "cellAt (h[a := c]) r = Some (ConversationCell v)"
    using r by (simp add: cellAt_update_other)
  with Cons.IH [OF ws Cons.prems(2)] vs show ?case by simp
qed

lemma readSection_cases:
  "readSection h g = Some s \<Longrightarrow>
   \<exists>a cs. cellAt h g = Some (GroupCell (hg_label s) a) \<and> cellAt h a = Some (ConversationArray cs)
          \<and> readConversations h cs = Some (hg_conversations s)"
  by (auto simp add: readSection_def split: option.splits cell.splits)

lemma readSection_intro:
  "cellAt h g = Some (GroupCell label a) \<Longrightarrow> cellAt h a = Some (ConversationArray cs) \<Longrightarrow>
   readConversations h cs = Some vs \<Longrightarrow>
   readSection h g = Some \<lparr>hg_label = label, hg_conversations = vs\<rparr>"
  by (simp add: readSection_def)

lemma readSection_append: "readSection h g = Some s \<Longrightarrow> readSection (h @ e) g = Some s"
proof -
  assume a: "readSection h g = Some s"
  from readSection_cases [OF a] obtain a cs where
    "cellAt h g = Some (GroupCell (hg_label s) a)" "cellAt h a = Some (ConversationArray cs)"
    "readConversations h cs = Some (hg_conversations s)" by blast
  then have "readSection (h @ e) g = Some \<lparr>hg_label = hg_label s, hg_conversations = hg_conversations s\<rparr>"
    by (intro readSection_intro cellAt_append readConversations_append)
  then show ?thesis by simp
qed

lemma readSections_append: "readSections h gs = Some G \<Longrightarrow> readSections (h @ e) gs = Some G"
proof (induction gs arbitrary: G)
  case Nil
  then show ?case by simp
next
  case (Cons g gs)
  from Cons.prems obtain s G' where s: "readSection h g = Some s"
    and G': "readSections h gs = Some G'" and G: "G = s # G'"
    by (auto split: option.splits)
  from s have "readSection (h @ e) g = Some s" by (rule readSection_append)
  with Cons.IH [OF G'] G show ?case by simp
qed

lemma arrayOf_append: "arrayOf h g = Some a \<Longrightarrow> arrayOf (h @ e) g = Some a"
  by (auto simp add: arrayOf_def cellAt_append split: option.splits cell.splits)

lemma arrayOf_readSection:
  "readSection h g = Some s \<Longrightarrow> \<exists>a cs. arrayOf h g = Some a \<and> cellAt h a = Some (ConversationArray cs)"
  by (auto simp add: readSection_def arrayOf_def split: option.splits cell.splits)

lemma readSection_update_array:
  assumes "readSection h g = Some s" and "cellAt h a = Some (ConversationArray y)"
    and "arrayOf h g \<noteq> Some a"
  shows "readSection (h[a := ConversationArray x]) g = Some s"
proof -
  from readSection_cases [OF assms(1)] obtain b cs where
    g: "cellAt h g = Some (GroupCell (hg_label s) b)" and b: "cellAt h b = Some (ConversationArray cs)"
    and cs: "readConversations h cs = Some (hg_conversations s)" by blast
  from g assms(2) have "g \<noteq> a" by auto
  from g assms(3) have "b \<noteq> a" by (simp add: arrayOf_def)
  have "readSection (h[a := ConversationArray x]) g
          = Some \<lparr>hg_label = hg_label s, hg_conversations = hg_conversations s\<rparr>"
  proof (rule readSection_intro)
    show "cellAt (h[a := ConversationArray x]) g = Some (GroupCell (hg_label s) b)"
      using g \<open>g \<noteq> a\<close> by (simp add: cellAt_update_other)
    show "cellAt (h[a := ConversationArray x]) b = Some (ConversationArray cs)"
      using b \<open>b \<noteq> a\<close> by (simp add: cellAt_update_other)
    show "readConversations (h[a := ConversationArray x]) cs = Some (hg_conversations s)"
      using cs assms(2) by (intro readConversations_update) auto
  qed
  then show ?thesis by simp
qed

lemma arrayOf_update_array:
  "cellAt h a = Some (ConversationArray y) \<Longrightarrow> arrayOf (h[a := ConversationArray x]) g = arrayOf h g"
  by (cases "g = a") (simp_all add: arrayOf_def cellAt_update_other cellAt_update_same cellAt_length)

lemma readSections_update_array:
  "readSections h gs = Some G \<Longrightarrow> cellAt h a = Some (ConversationArray y) \<Longrightarrow>
   a \<notin> set (map (\<lambda>g. the (arrayOf h g)) gs) \<Longrightarrow>
   readSections (h[a := ConversationArray x]) gs = Some G"
proof (induction gs arbitrary: G)
  case Nil
  then show ?case by simp
next
  case (Cons g gs)
  from Cons.prems(1) obtain s G' where s: "readSection h g = Some s"
    and G': "readSections h gs = Some G'" and G: "G = s # G'"
    by (auto split: option.splits)
  from Cons.prems(3) have "arrayOf h g \<noteq> Some a" by auto
  with s Cons.prems(2) have "readSection (h[a := ConversationArray x]) g = Some s"
    by (rule readSection_update_array)
  moreover have "readSections (h[a := ConversationArray x]) gs = Some G'"
    using G' Cons.prems(2,3) by (intro Cons.IH) auto
  ultimately show ?case using G by simp
qed

lemma readSection_update_other:
  assumes "readSection h g = Some s" and "g \<noteq> n"
    and "\<forall>cs. cellAt h n \<noteq> Some (ConversationArray cs)"
    and "\<forall>v. cellAt h n \<noteq> Some (ConversationCell v)"
  shows "readSection (h[n := c]) g = Some s"
proof -
  from readSection_cases [OF assms(1)] obtain b cs where
    g: "cellAt h g = Some (GroupCell (hg_label s) b)" and b: "cellAt h b = Some (ConversationArray cs)"
    and cs: "readConversations h cs = Some (hg_conversations s)" by blast
  from b assms(3) have "b \<noteq> n" by auto
  have "readSection (h[n := c]) g
          = Some \<lparr>hg_label = hg_label s, hg_conversations = hg_conversations s\<rparr>"
  proof (rule readSection_intro)
    show "cellAt (h[n := c]) g = Some (GroupCell (hg_label s) b)"
      using g assms(2) by (simp add: cellAt_update_other)
    show "cellAt (h[n := c]) b = Some (ConversationArray cs)"
      using b \<open>b \<noteq> n\<close> by (simp add: cellAt_update_other)
    show "readConversations (h[n := c]) cs = Some (hg_conversations s)"
      using cs assms(4) by (rule readConversations_update)
  qed
  then show ?thesis by simp
qed

lemma cloneConversations_h_correct:
  "readConversations h cs = Some vs \<Longrightarrow>
   \<exists>cs' e. cloneConversations_h h cs = Some (cs', h @ e) \<and> readConversations (h @ e) cs' = Some vs"
proof (induction cs arbitrary: h vs)
  case Nil
  then have "cloneConversations_h h [] = Some ([], h @ []) \<and> readConversations (h @ []) [] = Some vs"
    by simp
  then show ?case by blast
next
  case (Cons r rs)
  from Cons.prems obtain c ws where r: "cellAt h r = Some (ConversationCell c)"
    and ws: "readConversations h rs = Some ws" and vs: "vs = c # ws"
    by (auto split: option.splits cell.splits)
  define h1 where "h1 = h @ [ConversationCell c]"
  have "readConversations h1 rs = Some ws"
    unfolding h1_def using ws by (rule readConversations_append)
  from Cons.IH [OF this] obtain cs' e where
    cl: "cloneConversations_h h1 rs = Some (cs', h1 @ e)"
    and rd: "readConversations (h1 @ e) cs' = Some ws" by blast
  have new: "cellAt (h1 @ e) (length h) = Some (ConversationCell c)"
    unfolding h1_def by (rule cellAt_append) (rule cellAt_new)
  have "cloneConversations_h h (r # rs) = Some (length h # cs', h @ ([ConversationCell c] @ e))"
    using r cl by (simp add: alloc_def h1_def)
  moreover have "readConversations (h @ ([ConversationCell c] @ e)) (length h # cs') = Some vs"
    using new rd vs by (simp add: h1_def)
  ultimately show ?case by blast
qed

lemma owned_Cons:
  assumes "owned b' h gs" and "b \<le> b'" and "g < b'" and "b \<le> g"
    and "arrayOf h g = Some a" and "a < b'" and "b \<le> a"
  shows "owned b h (g # gs)"
proof -
  from assms(1) have d: "distinct gs" and lo: "\<forall>x \<in> set gs. b' \<le> x"
    and da: "distinct (map (\<lambda>g. the (arrayOf h g)) gs)"
    and la: "\<forall>x \<in> set gs. b' \<le> the (arrayOf h x)"
    by (simp_all add: owned_def list_all_iff)
  from lo assms(3) have "g \<notin> set gs" by auto
  moreover from la assms(6) have "a \<notin> (\<lambda>g. the (arrayOf h g)) ` set gs" by auto
  moreover from lo assms(2) have "\<forall>x \<in> set gs. b \<le> x" by auto
  moreover from la assms(2) have "\<forall>x \<in> set gs. b \<le> the (arrayOf h x)" by auto
  ultimately show ?thesis
    using d da assms(4,5,7) by (simp add: owned_def list_all_iff)
qed

lemma cloneSections_h_correct:
  "readSections h gs = Some G \<Longrightarrow>
   \<exists>gs' e. cloneSections_h h gs = Some (gs', h @ e) \<and> readSections (h @ e) gs' = Some G
          \<and> owned (length h) (h @ e) gs'"
proof (induction gs arbitrary: h G)
  case Nil
  then have "cloneSections_h h [] = Some ([], h @ []) \<and> readSections (h @ []) [] = Some G
             \<and> owned (length h) (h @ []) []"
    by (simp add: owned_def)
  then show ?case by blast
next
  case (Cons g gs)
  from Cons.prems obtain s G' where s: "readSection h g = Some s"
    and G': "readSections h gs = Some G'" and G: "G = s # G'"
    by (auto split: option.splits)
  from readSection_cases [OF s] obtain a cs where
    g: "cellAt h g = Some (GroupCell (hg_label s) a)" and a: "cellAt h a = Some (ConversationArray cs)"
    and cs: "readConversations h cs = Some (hg_conversations s)" by blast
  from cloneConversations_h_correct [OF cs] obtain cs' e1 where
    cl: "cloneConversations_h h cs = Some (cs', h @ e1)"
    and rd: "readConversations (h @ e1) cs' = Some (hg_conversations s)" by blast
  define arr where "arr = length (h @ e1)"
  define cp where "cp = Suc arr"
  define e3 where "e3 = e1 @ [ConversationArray cs', GroupCell (hg_label s) arr]"
  define h3 where "h3 = h @ e3"
  have len3: "length h3 = Suc cp" by (simp add: h3_def e3_def cp_def arr_def)
  have "readSections h3 gs = Some G'"
    unfolding h3_def using G' by (rule readSections_append)
  from Cons.IH [OF this] obtain gs' e where
    cls: "cloneSections_h h3 gs = Some (gs', h3 @ e)"
    and rds: "readSections (h3 @ e) gs' = Some G'"
    and own: "owned (length h3) (h3 @ e) gs'" by blast
  have arr3: "cellAt h3 arr = Some (ConversationArray cs')"
    by (simp add: h3_def e3_def arr_def cellAt_def nth_append)
  have cp3: "cellAt h3 cp = Some (GroupCell (hg_label s) arr)"
    by (simp add: h3_def e3_def arr_def cp_def cellAt_def nth_append)
  have rd3: "readConversations h3 cs' = Some (hg_conversations s)"
    using readConversations_append [OF rd, of "[ConversationArray cs', GroupCell (hg_label s) arr]"]
    by (simp add: h3_def e3_def)
  have "readSection (h3 @ e) cp = Some \<lparr>hg_label = hg_label s, hg_conversations = hg_conversations s\<rparr>"
    using cp3 arr3 rd3 by (intro readSection_intro cellAt_append readConversations_append)
  then have rcp: "readSection (h3 @ e) cp = Some s" by simp
  have ao: "arrayOf (h3 @ e) cp = Some arr"
    using cp3 by (simp add: arrayOf_def cellAt_append)
  have step: "cloneSections_h h (g # gs) = Some (cp # gs', h @ (e3 @ e))"
    using g a cl cls
    by (simp add: alloc_def arr_def cp_def h3_def e3_def)
  have read: "readSections (h @ (e3 @ e)) (cp # gs') = Some G"
    using rcp rds G by (simp add: h3_def)
  have "owned (length h) (h3 @ e) (cp # gs')"
    using own
  proof (rule owned_Cons)
    show "length h \<le> length h3" by (simp add: h3_def)
    show "cp < length h3" by (simp add: len3)
    show "length h \<le> cp" by (simp add: cp_def arr_def)
    show "arrayOf (h3 @ e) cp = Some arr" by (rule ao)
    show "arr < length h3" by (simp add: len3 cp_def)
    show "length h \<le> arr" by (simp add: arr_def)
  qed
  then have "owned (length h) (h @ (e3 @ e)) (cp # gs')" by (simp add: h3_def)
  with step read show ?case by blast
qed

lemma readConversations_iff:
  "readConversations h cs = Some vs \<longleftrightarrow>
   list_all2 (\<lambda>r v. cellAt h r = Some (ConversationCell v)) cs vs"
proof (induction cs arbitrary: vs)
  case Nil
  show ?case by auto
next
  case (Cons r rs)
  show ?case
    by (cases vs) (auto simp add: Cons.IH split: option.splits cell.splits)
qed

lemma findIndex_h_correct:
  "readConversations h cs = Some vs \<Longrightarrow>
   findIndex_h h cid cs = Some (findIndex (\<lambda>c. hc_id c = cid) vs)"
proof (induction cs arbitrary: vs)
  case Nil
  then show ?case by simp
next
  case (Cons r rs)
  from Cons.prems obtain c ws where r: "cellAt h r = Some (ConversationCell c)"
    and ws: "readConversations h rs = Some ws" and vs: "vs = c # ws"
    by (auto split: option.splits cell.splits)
  from Cons.IH [OF ws] r vs show ?case by simp
qed

lemma readConversations_splice:
  assumes "readConversations h cs = Some vs"
  shows "readConversations h (take i cs @ drop (Suc i) cs) = Some (take i vs @ drop (Suc i) vs)"
  using assms unfolding readConversations_iff
  by (intro list_all2_appendI list_all2_takeI list_all2_dropI)

lemma readConversations_nth:
  "readConversations h cs = Some vs \<Longrightarrow> i < length vs \<Longrightarrow>
   cellAt h (cs ! i) = Some (ConversationCell (vs ! i))"
  unfolding readConversations_iff by (simp add: list_all2_conv_all_nth)

lemma spliceExisting_h_correct:
  "readSections h gs = Some G \<Longrightarrow> distinct (map (\<lambda>g. the (arrayOf h g)) gs) \<Longrightarrow>
   \<exists>er h2. spliceExisting_h h cid gs = Some (er, h2)
      \<and> readSections h2 gs = Some (snd (spliceExisting cid G))
      \<and> existingValue h2 er = Some (fst (spliceExisting cid G))
      \<and> (h2 = h \<or> (\<exists>a x y. a \<in> set (map (\<lambda>g. the (arrayOf h g)) gs)
                         \<and> cellAt h a = Some (ConversationArray y)
                         \<and> h2 = h[a := ConversationArray x]))"
proof (induction gs arbitrary: G)
  case Nil
  then show ?case by (simp add: existingValue_def)
next
  case (Cons g gs)
  from Cons.prems(1) obtain s G' where s: "readSection h g = Some s"
    and G': "readSections h gs = Some G'" and G: "G = s # G'"
    by (auto split: option.splits)
  from readSection_cases [OF s] obtain a cs where
    g: "cellAt h g = Some (GroupCell (hg_label s) a)" and a: "cellAt h a = Some (ConversationArray cs)"
    and cs: "readConversations h cs = Some (hg_conversations s)" by blast
  have ao: "the (arrayOf h g) = a" using g by (simp add: arrayOf_def)
  from Cons.prems(2) have d: "distinct (map (\<lambda>g. the (arrayOf h g)) gs)"
    and fresh: "a \<notin> set (map (\<lambda>g. the (arrayOf h g)) gs)"
    by (simp_all add: ao)
  note fi = findIndex_h_correct [OF cs, of cid]
  show ?case
  proof (cases "findIndex (\<lambda>c. hc_id c = cid) (hg_conversations s)")
    case (Some i)
    define h2 where "h2 = h[a := ConversationArray (take i cs @ drop (Suc i) cs)]"
    from findIndex_Some [OF Some] have i: "i < length (hg_conversations s)" by simp
    have run: "spliceExisting_h h cid (g # gs) = Some (Some (cs ! i), h2)"
      using g a fi Some by (simp add: h2_def)
    have pure: "spliceExisting cid G =
        (Some (hg_conversations s ! i),
         s\<lparr>hg_conversations := take i (hg_conversations s) @ drop (Suc i) (hg_conversations s)\<rparr> # G')"
      using Some G by simp
    have "g \<noteq> a" using g a by auto
    have g2: "cellAt h2 g = Some (GroupCell (hg_label s) a)"
      using g \<open>g \<noteq> a\<close> by (simp add: h2_def cellAt_update_other)
    have a2: "cellAt h2 a = Some (ConversationArray (take i cs @ drop (Suc i) cs))"
      unfolding h2_def using cellAt_length [OF a] by (rule cellAt_update_same)
    have notconv: "\<forall>v. cellAt h a \<noteq> Some (ConversationCell v)" using a by simp
    have "readConversations h (take i cs @ drop (Suc i) cs)
            = Some (take i (hg_conversations s) @ drop (Suc i) (hg_conversations s))"
      using cs by (rule readConversations_splice)
    then have c2: "readConversations h2 (take i cs @ drop (Suc i) cs)
            = Some (take i (hg_conversations s) @ drop (Suc i) (hg_conversations s))"
      unfolding h2_def using notconv by (rule readConversations_update)
    have "readSection h2 g = Some \<lparr>hg_label = hg_label s,
            hg_conversations = take i (hg_conversations s) @ drop (Suc i) (hg_conversations s)\<rparr>"
      using g2 a2 c2 by (rule readSection_intro)
    then have s2: "readSection h2 g =
        Some (s\<lparr>hg_conversations := take i (hg_conversations s) @ drop (Suc i) (hg_conversations s)\<rparr>)"
      by simp
    have rest: "readSections h2 gs = Some G'"
      unfolding h2_def using G' a fresh by (rule readSections_update_array)
    have read: "readSections h2 (g # gs) = Some (snd (spliceExisting cid G))"
      using s2 rest by (simp add: pure)
    have "cellAt h (cs ! i) = Some (ConversationCell (hg_conversations s ! i))"
      using cs i by (rule readConversations_nth)
    moreover from this a have "cs ! i \<noteq> a" by auto
    ultimately have "cellAt h2 (cs ! i) = Some (ConversationCell (hg_conversations s ! i))"
      by (simp add: h2_def cellAt_update_other)
    then have ev: "existingValue h2 (Some (cs ! i)) = Some (fst (spliceExisting cid G))"
      by (simp add: existingValue_def pure)
    have fr: "\<exists>b x y. b \<in> set (map (\<lambda>g. the (arrayOf h g)) (g # gs))
                \<and> cellAt h b = Some (ConversationArray y) \<and> h2 = h[b := ConversationArray x]"
      using a ao h2_def by (intro exI [of _ a] exI [of _ "take i cs @ drop (Suc i) cs"] exI [of _ cs]) simp
    from run read ev fr show ?thesis by blast
  next
    case None
    from Cons.IH [OF G' d] obtain er h2 where
      run': "spliceExisting_h h cid gs = Some (er, h2)"
      and read': "readSections h2 gs = Some (snd (spliceExisting cid G'))"
      and ev': "existingValue h2 er = Some (fst (spliceExisting cid G'))"
      and fr': "h2 = h \<or> (\<exists>b x y. b \<in> set (map (\<lambda>g. the (arrayOf h g)) gs)
                         \<and> cellAt h b = Some (ConversationArray y)
                         \<and> h2 = h[b := ConversationArray x])" by blast
    have run: "spliceExisting_h h cid (g # gs) = Some (er, h2)"
      using g a fi None run' by simp
    have pure: "spliceExisting cid G = (fst (spliceExisting cid G'), s # snd (spliceExisting cid G'))"
      using None G by (simp add: case_prod_beta)
    have s2: "readSection h2 g = Some s"
    proof -
      from fr' consider "h2 = h"
        | b x y where "b \<in> set (map (\<lambda>g. the (arrayOf h g)) gs)"
            "cellAt h b = Some (ConversationArray y)" "h2 = h[b := ConversationArray x]"
        by blast
      then show ?thesis
      proof cases
        case 1
        with s show ?thesis by simp
      next
        case 2
        from 2(1) fresh have "b \<noteq> a" by auto
        then have "arrayOf h g \<noteq> Some b" using g by (simp add: arrayOf_def)
        with s 2(2) show ?thesis unfolding 2(3) by (rule readSection_update_array)
      qed
    qed
    have read: "readSections h2 (g # gs) = Some (snd (spliceExisting cid G))"
      using s2 read' by (simp add: pure)
    have ev: "existingValue h2 er = Some (fst (spliceExisting cid G))"
      using ev' by (simp add: pure)
    have fr: "h2 = h \<or> (\<exists>b x y. b \<in> set (map (\<lambda>g. the (arrayOf h g)) (g # gs))
                         \<and> cellAt h b = Some (ConversationArray y)
                         \<and> h2 = h[b := ConversationArray x])"
      using fr' by auto
    from run read ev fr show ?thesis by blast
  qed
qed

lemma filterOthers_h_correct:
  "readConversations h cs = Some vs \<Longrightarrow>
   \<exists>kept. filterOthers_h h uid cs = Some kept
        \<and> readConversations h kept = Some (filter (\<lambda>c. hc_id c \<noteq> uid) vs)"
proof (induction cs arbitrary: vs)
  case Nil
  then show ?case by simp
next
  case (Cons r rs)
  from Cons.prems obtain c ws where r: "cellAt h r = Some (ConversationCell c)"
    and ws: "readConversations h rs = Some ws" and vs: "vs = c # ws"
    by (auto split: option.splits cell.splits)
  from Cons.IH [OF ws] obtain kept where
    k: "filterOthers_h h uid rs = Some kept"
    and rk: "readConversations h kept = Some (filter (\<lambda>c. hc_id c \<noteq> uid) ws)" by blast
  show ?case using r k rk vs by simp
qed

lemma readSections_update_other:
  "readSections h gs = Some G \<Longrightarrow> n \<notin> set gs \<Longrightarrow>
   \<forall>cs. cellAt h n \<noteq> Some (ConversationArray cs) \<Longrightarrow>
   \<forall>v. cellAt h n \<noteq> Some (ConversationCell v) \<Longrightarrow>
   readSections (h[n := c]) gs = Some G"
proof (induction gs arbitrary: G)
  case Nil
  then show ?case by simp
next
  case (Cons g gs)
  from Cons.prems(1) obtain s G' where s: "readSection h g = Some s"
    and G': "readSections h gs = Some G'" and G: "G = s # G'"
    by (auto split: option.splits)
  from Cons.prems(2) have "g \<noteq> n" by auto
  with s have "readSection (h[n := c]) g = Some s"
    using Cons.prems(3,4) by (rule readSection_update_other)
  moreover have "readSections (h[n := c]) gs = Some G'"
    using G' Cons.prems(2,3,4) by (intro Cons.IH) auto
  ultimately show ?case using G by simp
qed

lemma take_update_ge: "b \<le> a \<Longrightarrow> take b (h[a := c]) = take b h"
  by simp

lemma finish_empty:
  assumes "cellAt h next = Some (GroupArray [])" and "b \<le> next"
  shows "\<exists>h5. (case pushDefaultGroup (h @ [ConversationCell u]) next [] of
                 (gs', h4) \<Rightarrow> setFirstConversations h4 (hd gs') (length h) (hc_id u)) = Some h5
             \<and> take b h5 = take b h
             \<and> readGroups h5 next = Some [\<lparr>hg_label = lit ''Today'', hg_conversations = [u]\<rparr>]"
proof -
  from assms(1) have n: "next < length h" by (rule cellAt_length)
  define h5 where "h5 = ((h @ [ConversationCell u, ConversationArray [], GroupCell (lit ''Today'') (Suc (length h))])
                           [next := GroupArray [Suc (Suc (length h))]]
                         @ [ConversationArray [length h]])
                        [Suc (Suc (length h)) := GroupCell (lit ''Today'') (Suc (Suc (Suc (length h))))]"
  have run: "(case pushDefaultGroup (h @ [ConversationCell u]) next [] of
                 (gs', h4) \<Rightarrow> setFirstConversations h4 (hd gs') (length h) (hc_id u)) = Some h5"
    using n
    by (simp add: pushDefaultGroup_def alloc_def setFirstConversations_def cellAt_def nth_append
          nth_list_update h5_def)
  have frame: "take b h5 = take b h"
    using assms(2) n by (simp add: h5_def)
  have read: "readGroups h5 next = Some [\<lparr>hg_label = lit ''Today'', hg_conversations = [u]\<rparr>]"
    using n
    by (simp add: readGroups_def readSection_def cellAt_def h5_def nth_append nth_list_update)
  from run frame read show ?thesis by blast
qed

lemma finish_nonempty:
  assumes "readSections h (g0 # rest) = Some (s0 # G')" and "g0 \<notin> set rest"
    and "cellAt h next = Some (GroupArray (g0 # rest))" and "b \<le> g0"
  shows "\<exists>h5. (case pushDefaultGroup (h @ [ConversationCell u]) next (g0 # rest) of
                 (gs', h4) \<Rightarrow> setFirstConversations h4 (hd gs') (length h) (hc_id u)) = Some h5
             \<and> take b h5 = take b h
             \<and> readGroups h5 next =
                 Some (s0\<lparr>hg_conversations :=
                          u # filter (\<lambda>c. hc_id c \<noteq> hc_id u) (hg_conversations s0)\<rparr> # G')"
proof -
  from assms(1) have s0: "readSection h g0 = Some s0" and G': "readSections h rest = Some G'"
    by (auto split: option.splits)
  from readSection_cases [OF s0] obtain a cs where
    g: "cellAt h g0 = Some (GroupCell (hg_label s0) a)" and a: "cellAt h a = Some (ConversationArray cs)"
    and cs: "readConversations h cs = Some (hg_conversations s0)" by blast
  from filterOthers_h_correct [OF cs, of "hc_id u"] obtain kept where
    k: "filterOthers_h h (hc_id u) cs = Some kept"
    and rk: "readConversations h kept = Some (filter (\<lambda>c. hc_id c \<noteq> hc_id u) (hg_conversations s0))"
    by blast
  define h3 where "h3 = h @ [ConversationCell u]"
  define h4 where "h4 = h3 @ [ConversationArray (length h # kept)]"
  define h5 where "h5 = h4[g0 := GroupCell (hg_label s0) (length h3)]"
  have g0len: "g0 < length h" using g by (rule cellAt_length)
  have k3: "filterOthers_h h3 (hc_id u) cs = Some kept"
  proof -
    have "readConversations h3 cs = Some (hg_conversations s0)"
      unfolding h3_def using cs by (rule readConversations_append)
    from filterOthers_h_correct [OF this, of "hc_id u"] obtain kept' where
      k': "filterOthers_h h3 (hc_id u) cs = Some kept'" by blast
    have "\<And>vs. readConversations h cs = Some vs \<Longrightarrow>
            filterOthers_h h3 (hc_id u) cs = filterOthers_h h (hc_id u) cs"
    proof (induction cs)
      case Nil
      show ?case by simp
    next
      case (Cons r rs)
      from Cons.prems obtain c ws where r: "cellAt h r = Some (ConversationCell c)"
        and ws: "readConversations h rs = Some ws"
        by (auto split: option.splits cell.splits)
      from r have "cellAt h3 r = Some (ConversationCell c)" unfolding h3_def by (rule cellAt_append)
      with r Cons.IH [OF ws] show ?case by simp
    qed
    from this [OF cs] k show ?thesis by simp
  qed
  have run: "(case pushDefaultGroup h3 next (g0 # rest) of
                 (gs', h4) \<Rightarrow> setFirstConversations h4 (hd gs') (length h) (hc_id u)) = Some h5"
    using cellAt_append [OF g, of "[ConversationCell u]"] cellAt_append [OF a, of "[ConversationCell u]"] k3
    by (simp add: pushDefaultGroup_def setFirstConversations_def alloc_def h3_def [symmetric]
          h4_def h5_def)
  have frame: "take b h5 = take b h"
    using assms(4) g0len by (simp add: h5_def h4_def h3_def)
  have notarr: "\<forall>cs. cellAt h4 g0 \<noteq> Some (ConversationArray cs)"
    and notconv: "\<forall>v. cellAt h4 g0 \<noteq> Some (ConversationCell v)"
    using cellAt_append [OF g, of "[ConversationCell u, ConversationArray (length h # kept)]"]
    by (simp_all add: h4_def h3_def)
  have "next \<noteq> g0" using g assms(3) by auto
  have n5: "cellAt h5 next = Some (GroupArray (g0 # rest))"
    using cellAt_append [OF assms(3), of "[ConversationCell u, ConversationArray (length h # kept)]"]
      \<open>next \<noteq> g0\<close>
    by (simp add: h5_def h4_def h3_def cellAt_update_other)
  have g5: "cellAt h5 g0 = Some (GroupCell (hg_label s0) (length h3))"
    unfolding h5_def by (rule cellAt_update_same) (simp add: h4_def h3_def g0len less_SucI)
  have a5: "cellAt h5 (length h3) = Some (ConversationArray (length h # kept))"
    using g0len by (simp add: h5_def h4_def h3_def cellAt_def nth_append)
  have u4: "cellAt h4 (length h) = Some (ConversationCell u)"
    by (simp add: h4_def h3_def cellAt_def nth_append)
  have "readConversations h4 kept = Some (filter (\<lambda>c. hc_id c \<noteq> hc_id u) (hg_conversations s0))"
    using readConversations_append [OF rk, of "[ConversationCell u, ConversationArray (length h # kept)]"]
    by (simp add: h4_def h3_def)
  with u4 have "readConversations h4 (length h # kept)
                  = Some (u # filter (\<lambda>c. hc_id c \<noteq> hc_id u) (hg_conversations s0))"
    by simp
  then have c5: "readConversations h5 (length h # kept)
                  = Some (u # filter (\<lambda>c. hc_id c \<noteq> hc_id u) (hg_conversations s0))"
    unfolding h5_def using notconv by (rule readConversations_update)
  have "readSection h5 g0 = Some \<lparr>hg_label = hg_label s0,
          hg_conversations = u # filter (\<lambda>c. hc_id c \<noteq> hc_id u) (hg_conversations s0)\<rparr>"
    using g5 a5 c5 by (rule readSection_intro)
  then have s5: "readSection h5 g0 =
      Some (s0\<lparr>hg_conversations := u # filter (\<lambda>c. hc_id c \<noteq> hc_id u) (hg_conversations s0)\<rparr>)"
    by simp
  have "readSections h4 rest = Some G'"
    using readSections_append [OF G', of "[ConversationCell u, ConversationArray (length h # kept)]"]
    by (simp add: h4_def h3_def)
  then have r5: "readSections h5 rest = Some G'"
    unfolding h5_def using assms(2) notarr notconv by (rule readSections_update_other)
  have read: "readGroups h5 next =
                 Some (s0\<lparr>hg_conversations :=
                          u # filter (\<lambda>c. hc_id c \<noteq> hc_id u) (hg_conversations s0)\<rparr> # G')"
    using n5 s5 r5 by (simp add: readGroups_def)
  from run frame read show ?thesis unfolding h3_def by blast
qed

lemma readGroups_prefix:
  assumes "readGroups h r = Some G" and "take (length h) h' = h"
  shows "readGroups h' r = Some G"
proof -
  from assms(2) have h': "h' = h @ drop (length h) h'"
    by (metis append_take_drop_id)
  from assms(1) obtain gs where r: "cellAt h r = Some (GroupArray gs)"
    and gs: "readSections h gs = Some G"
    by (auto simp add: readGroups_def split: option.splits cell.splits)
  have "cellAt (h @ drop (length h) h') r = Some (GroupArray gs)" using r by (rule cellAt_append)
  moreover have "readSections (h @ drop (length h) h') gs = Some G" using gs by (rule readSections_append)
  ultimately have "readGroups (h @ drop (length h) h') r = Some G" by (simp add: readGroups_def)
  with h' show ?thesis by simp
qed

lemma arrayOf_map_append:
  "readSections h gs = Some G \<Longrightarrow>
   map (\<lambda>g. the (arrayOf (h @ e) g)) gs = map (\<lambda>g. the (arrayOf h g)) gs"
proof (induction gs arbitrary: G)
  case Nil
  show ?case by simp
next
  case (Cons g gs)
  from Cons.prems obtain s G' where s: "readSection h g = Some s"
    and G': "readSections h gs = Some G'"
    by (auto split: option.splits)
  from arrayOf_readSection [OF s] obtain a where a: "arrayOf h g = Some a" by blast
  then have "arrayOf (h @ e) g = Some a" by (rule arrayOf_append)
  with a Cons.IH [OF G'] show ?case by simp
qed

lemma promoteConversation_h_correct:
  assumes "readGroups h r = Some G"
  shows "\<exists>next h'. promoteConversation_h h r cid f = Some (next, h')
           \<and> take (length h) h' = h
           \<and> readGroups h' next = Some (promoteConversation G cid f)"
proof -
  define b where "b = length h"
  from assms obtain gs where r: "cellAt h r = Some (GroupArray gs)"
    and gs: "readSections h gs = Some G"
    by (auto simp add: readGroups_def split: option.splits cell.splits)
  from cloneSections_h_correct [OF gs] obtain gs' e where
    cl: "cloneSections_h h gs = Some (gs', h @ e)"
    and rd: "readSections (h @ e) gs' = Some G"
    and own: "owned (length h) (h @ e) gs'" by blast
  define nxt where "nxt = length (h @ e)"
  define h1 where "h1 = (h @ e) @ [GroupArray gs']"
  have clone: "cloneHistoryGroups_h h r = Some (nxt, h1)"
    using r cl by (simp add: cloneHistoryGroups_h_def alloc_def nxt_def h1_def)
  have n1: "cellAt h1 nxt = Some (GroupArray gs')"
    unfolding h1_def nxt_def by (rule cellAt_new)
  have bn: "b \<le> nxt" by (simp add: b_def nxt_def)
  have rd1: "readSections h1 gs' = Some G"
    unfolding h1_def using rd by (rule readSections_append)
  have arr1: "map (\<lambda>g. the (arrayOf h1 g)) gs' = map (\<lambda>g. the (arrayOf (h @ e) g)) gs'"
    unfolding h1_def using rd by (rule arrayOf_map_append)
  from own have dg: "distinct gs'" and lg: "\<forall>g \<in> set gs'. b \<le> g"
    and da: "distinct (map (\<lambda>g. the (arrayOf h1 g)) gs')"
    and la: "\<forall>a \<in> set (map (\<lambda>g. the (arrayOf h1 g)) gs'). b \<le> a"
    by (simp_all add: owned_def list_all_iff arr1 b_def)
  have t1: "take b h1 = h" by (simp add: h1_def b_def)
  from spliceExisting_h_correct [OF rd1 da, of cid] obtain er h2 where
    sp: "spliceExisting_h h1 cid gs' = Some (er, h2)"
    and rd2: "readSections h2 gs' = Some (snd (spliceExisting cid G))"
    and ev: "existingValue h2 er = Some (fst (spliceExisting cid G))"
    and fr: "h2 = h1 \<or> (\<exists>a x y. a \<in> set (map (\<lambda>g. the (arrayOf h1 g)) gs')
                         \<and> cellAt h1 a = Some (ConversationArray y)
                         \<and> h2 = h1[a := ConversationArray x])" by blast
  have t2: "take b h2 = h" and n2: "cellAt h2 nxt = Some (GroupArray gs')"
  proof -
    from fr consider "h2 = h1"
      | a x y where "a \<in> set (map (\<lambda>g. the (arrayOf h1 g)) gs')"
          "cellAt h1 a = Some (ConversationArray y)" "h2 = h1[a := ConversationArray x]"
      by blast
    then have "take b h2 = h \<and> cellAt h2 nxt = Some (GroupArray gs')"
    proof cases
      case 1
      with t1 n1 show ?thesis by simp
    next
      case 2
      from 2(1) la have "b \<le> a" by blast
      then have "take b h2 = take b h1" unfolding 2(3) by (rule take_update_ge)
      moreover from 2(2) n1 have "nxt \<noteq> a" by auto
      then have "cellAt h2 nxt = cellAt h1 nxt" unfolding 2(3) by (rule cellAt_update_other)
      ultimately show ?thesis using t1 n1 by simp
    qed
    then show "take b h2 = h" and "cellAt h2 nxt = Some (GroupArray gs')" by simp_all
  qed
  define u where "u = f (fst (spliceExisting cid G))"
  have "\<exists>h5. (case pushDefaultGroup (h2 @ [ConversationCell u]) nxt gs' of
                 (gs'', h4) \<Rightarrow> setFirstConversations h4 (hd gs'') (length h2) (hc_id u)) = Some h5
             \<and> take b h5 = take b h2
             \<and> readGroups h5 nxt = Some (promoteConversation G cid f)"
  proof (cases gs')
    case Nil
    with rd2 have G1: "snd (spliceExisting cid G) = []" by simp
    from n2 Nil have "cellAt h2 nxt = Some (GroupArray [])" by simp
    from finish_empty [OF this bn, of u]
    show ?thesis unfolding Nil by (simp add: promoteConversation_unfold G1 u_def)
  next
    case (Cons g0 rest)
    with rd2 obtain s0 G' where G1: "snd (spliceExisting cid G) = s0 # G'"
      by (auto split: option.splits) metis
    have a1: "readSections h2 (g0 # rest) = Some (s0 # G')" using rd2 Cons G1 by simp
    have a2: "g0 \<notin> set rest" using dg Cons by simp
    have a3: "cellAt h2 nxt = Some (GroupArray (g0 # rest))" using n2 Cons by simp
    have a4: "b \<le> g0" using lg Cons by simp
    from finish_nonempty [OF a1 a2 a3 a4, of u]
    show ?thesis unfolding Cons by (simp add: promoteConversation_unfold G1 u_def)
  qed
  then obtain h5 where
    fin: "(case pushDefaultGroup (h2 @ [ConversationCell u]) nxt gs' of
                 (gs'', h4) \<Rightarrow> setFirstConversations h4 (hd gs'') (length h2) (hc_id u)) = Some h5"
    and t5: "take b h5 = take b h2"
    and r5: "readGroups h5 nxt = Some (promoteConversation G cid f)" by blast
  have run: "promoteConversation_h h r cid f = Some (nxt, h5)"
    using clone n1 sp ev fin
    by (simp add: promoteConversation_h_def alloc_def u_def split: prod.splits)
  have "take (length h) h5 = h" using t5 t2 by (simp add: b_def)
  with run r5 show ?thesis by blast
qed

lemma readGroups_seedHeap: "readGroups seedHeap 9 = Some historySeed"
  by (simp add: seedHeap_def allSummaries_def historySeed_def readGroups_def readSection_def cellAt_def)

subsection \<open>The history index and the store in reachable states\<close>

lemma keepsId_refresh:
  "keepsId cid (\<lambda>existing.
          \<lparr>hc_id = (case existing of Some e \<Rightarrow> hc_id e | None \<Rightarrow> cid),
           hc_title = t existing, hc_preview = p, hc_timestamp = ts\<rparr>)"
  by (simp add: keepsId_def)

lemma keepsId_select: "keepsId (hc_id c) (\<lambda>existing. case existing of Some e \<Rightarrow> e | None \<Rightarrow> c)"
  by (simp add: keepsId_def)

lemma keepsId_const: "keepsId cid (\<lambda>existing. \<lparr>hc_id = cid, hc_title = t, hc_preview = p, hc_timestamp = ts\<rparr>)"
  by (simp add: keepsId_def)

lemma historyBacked_promote:
  assumes "historyBacked s" and "keepsId cid f" and "dom (conversations s) \<subseteq> dom m" and "cid \<in> dom m"
  shows "distinct (allIds (promoteConversation (historyGroups s) cid f))
       \<and> set (allIds (promoteConversation (historyGroups s) cid f)) \<subseteq> dom m"
proof -
  from assms(1) have d: "distinct (allIds (historyGroups s))"
    and sub: "set (allIds (historyGroups s)) \<subseteq> dom (conversations s)"
    by (simp_all add: historyBacked_def)
  note p = distinct_promoteConversation [OF d assms(2)]
  from p(2) sub assms(3,4) have "set (allIds (promoteConversation (historyGroups s) cid f)) \<subseteq> dom m"
    by auto
  with p(1) show ?thesis by simp
qed

lemma historyBacked_handleSubmit: "historyBacked s \<Longrightarrow> historyBacked (handleSubmit rnd s)"
proof (cases "\<not> hasPendingInput s \<or> isGenerating s")
  case True
  assume "historyBacked s"
  with True show ?thesis by (simp add: handleSubmit_def)
next
  case False
  assume h: "historyBacked s"
  define m where "m = conversations (handleSubmit rnd s)"
  have dm: "dom m = insert (activeConversationId s) (dom (conversations s))"
    using False by (simp add: m_def handleSubmit_def Let_def updateConversationMessages_def)
  have hg: "historyGroups (handleSubmit rnd s) =
      refreshHistoryPreview (activeConversationId s)
        (userContent (trim (input s)) (map copyAttachment (composerAttachments s)))
        (Some (activeConversationTitle s)) (historyGroups s)"
    using False by (simp add: handleSubmit_def Let_def)
  have "distinct (allIds (historyGroups (handleSubmit rnd s)))
       \<and> set (allIds (historyGroups (handleSubmit rnd s))) \<subseteq> dom m"
    unfolding hg refreshHistoryPreview_def
    by (rule historyBacked_promote [OF h keepsId_refresh]) (auto simp add: dm)
  then show ?thesis by (simp add: historyBacked_def m_def)
qed

lemma historyBacked_handleNewChat: "historyBacked s \<Longrightarrow> historyBacked (handleNewChat rnd s)"
proof -
  assume h: "historyBacked s"
  define m where "m = conversations (handleNewChat rnd s)"
  have dm: "dom m = insert (createId (rnd (draws s))) (dom (conversations s))"
    by (simp add: m_def handleNewChat_def Let_def)
  have hg: "historyGroups (handleNewChat rnd s) =
      promoteConversation (historyGroups s) (createId (rnd (draws s)))
        (\<lambda>existing. \<lparr>hc_id = createId (rnd (draws s)),
                      hc_title = lit ''Untitled chat '' @ showNat (chatCounter s),
                      hc_preview = lit ''Say hello to Nova to get started.'',
                      hc_timestamp = lit ''Just now''\<rparr>)"
    by (simp add: handleNewChat_def Let_def)
  have "distinct (allIds (historyGroups (handleNewChat rnd s)))
       \<and> set (allIds (historyGroups (handleNewChat rnd s))) \<subseteq> dom m"
    unfolding hg
    by (rule historyBacked_promote [OF h keepsId_const]) (auto simp add: dm)
  then show ?thesis by (simp add: historyBacked_def m_def)
qed

lemma dom_handleSelectConversation:
  "dom (conversations (handleSelectConversation rnd c s)) = insert (hc_id c) (dom (conversations s))"
  by (auto simp add: handleSelectConversation_def split: option.splits)

lemma historyBacked_handleSelectConversation:
  "historyBacked s \<Longrightarrow> historyBacked (handleSelectConversation rnd c s)"
proof -
  assume h: "historyBacked s"
  define m where "m = conversations (handleSelectConversation rnd c s)"
  have dm: "dom m = insert (hc_id c) (dom (conversations s))"
    unfolding m_def by (rule dom_handleSelectConversation)
  have hg: "historyGroups (handleSelectConversation rnd c s) =
      promoteConversation (historyGroups s) (hc_id c)
        (\<lambda>existing. case existing of Some e \<Rightarrow> e | None \<Rightarrow> c)"
    by (simp add: handleSelectConversation_def)
  have "distinct (allIds (historyGroups (handleSelectConversation rnd c s)))
       \<and> set (allIds (historyGroups (handleSelectConversation rnd c s))) \<subseteq> dom m"
    unfolding hg
    by (rule historyBacked_promote [OF h keepsId_select]) (auto simp add: dm)
  then show ?thesis by (simp add: historyBacked_def m_def)
qed

lemma historyBacked_step: "historyBacked s \<Longrightarrow> historyBacked (step rnd e s)"
proof (cases e)
  case Submit
  assume "historyBacked s"
  with Submit show ?thesis by (simp add: historyBacked_handleSubmit)
next
  case NewChat
  assume "historyBacked s"
  with NewChat show ?thesis by (simp add: historyBacked_handleNewChat)
next
  case (SelectConversation c)
  assume "historyBacked s"
  with SelectConversation show ?thesis by (simp add: historyBacked_handleSelectConversation)
next
  case (ReplyTimeout h)
  assume "historyBacked s"
  with ReplyTimeout show ?thesis
    by (auto simp add: historyBacked_def replyTimeout_def updateConversationMessages_def
          split: option.split prod.split)
next
  case (ToggleReaction mid r)
  assume "historyBacked s"
  with ToggleReaction show ?thesis
    by (auto simp add: historyBacked_def toggleReaction_def updateConversationMessages_def Let_def)
next
  case (FileLoaded f r)
  assume "historyBacked s"
  with FileLoaded show ?thesis
    by (simp add: historyBacked_def addAttachmentFromFile_def split: option.split)
next
  case (CopyTimeout k)
  assume "historyBacked s"
  with CopyTimeout show ?thesis
    by (simp add: historyBacked_def copyTimeout_def split: option.split)
qed (simp_all add: historyBacked_def handleRemoveAttachment_def handleCopyResolved_def
       handleCopyRejected_def selectProvider_def Let_def)

lemma historyBacked_run: "historyBacked s \<Longrightarrow> historyBacked (run rnd evs s)"
  by (induction evs arbitrary: s) (simp_all add: historyBacked_step)

lemma dom_initial: "dom (conversations (initialState rnd)) = set (allIds historySeed)"
  by (simp add: initial_conversations allIds_historySeed insert_commute)

lemma historyBacked_initial: "historyBacked (initialState rnd)"
  by (simp add: historyBacked_def initial_active distinct_historySeed dom_initial)

lemma reachable_historyBacked: "reachable rnd s \<Longrightarrow> historyBacked s"
  by (auto simp add: reachable_def historyBacked_run historyBacked_initial)

lemma placeholder_content:
  "createPlaceholderConversation rnd d title preview =
     [\<lparr>msg_id = createId (rnd d), msg_role = Assistant, msg_name = lit ''Nova'',
       msg_avatarFallback = lit ''NO'', msg_avatarUrl = None,
       msg_content = lit ''This is a placeholder view for **'' @ title @ lit ''**.'' @ [10, 10]
         @ preview @ [10, 10]
         @ lit ''Load real messages here by persisting conversations and hydrating them when the user opens the thread.'',
       msg_markdown = Some True, msg_attachments = None, msg_reaction = None\<rparr>]"
  by (simp add: createPlaceholderConversation_def)

lemma select_absent:
  "conversations s (hc_id c) = None \<Longrightarrow>
   conversations (handleSelectConversation rnd c s) =
     (conversations s)(hc_id c \<mapsto> createPlaceholderConversation rnd (draws s) (hc_title c) (hc_preview c))"
  by (simp add: handleSelectConversation_def)

lemma select_present:
  "conversations s (hc_id c) \<noteq> None \<Longrightarrow>
   conversations (handleSelectConversation rnd c s) = conversations s"
  by (auto simp add: handleSelectConversation_def)

lemma initial_lookup:
  "conversations (initialState rnd) (lit ''abc12345'') = None"
  "conversations (initialState rnd) (lit ''week-2'') \<noteq> None"
  by (simp_all add: initial_conversations lit_def)

lemma refresh_call:
  "\<exists>updater. keepsId conversationId updater
     \<and> refreshHistoryPreview conversationId preview title previous
         = promoteConversation previous conversationId updater"
proof -
  define f where "f = (\<lambda>existing :: HistoryConversation option.
          \<lparr>hc_id = (case existing of Some e \<Rightarrow> hc_id e | None \<Rightarrow> conversationId),
           hc_title = (case title of Some t \<Rightarrow> t
                       | None \<Rightarrow> (case existing of Some e \<Rightarrow> hc_title e
                                   | None \<Rightarrow> lit ''Untitled chat'')),
           hc_preview = truncateText preview 80,
           hc_timestamp = lit ''Just now''\<rparr>)"
  have k: "keepsId conversationId f" unfolding f_def by (rule keepsId_refresh)
  have e: "refreshHistoryPreview conversationId preview title previous
         = promoteConversation previous conversationId f"
    by (simp add: refreshHistoryPreview_def f_def)
  show ?thesis by (rule exI [of _ f]) (rule conjI [OF k e])
qed

lemma newChat_call:
  "\<exists>updater. keepsId (createId (rnd (draws s))) updater
     \<and> historyGroups (handleNewChat rnd s)
         = promoteConversation (historyGroups s) (createId (rnd (draws s))) updater"
proof -
  define f where "f = (\<lambda>existing :: HistoryConversation option.
          \<lparr>hc_id = createId (rnd (draws s)),
           hc_title = lit ''Untitled chat '' @ showNat (chatCounter s),
           hc_preview = lit ''Say hello to Nova to get started.'',
           hc_timestamp = lit ''Just now''\<rparr>)"
  have k: "keepsId (createId (rnd (draws s))) f" unfolding f_def by (rule keepsId_const)
  have e: "historyGroups (handleNewChat rnd s)
         = promoteConversation (historyGroups s) (createId (rnd (draws s))) f"
    by (simp add: handleNewChat_def Let_def f_def)
  show ?thesis by (rule exI [of _ f]) (rule conjI [OF k e])
qed

lemma select_call:
  "\<exists>updater. keepsId (hc_id c) updater
     \<and> historyGroups (handleSelectConversation rnd c s)
         = promoteConversation (historyGroups s) (hc_id c) updater"
proof -
  define f where "f = (\<lambda>existing. case existing of Some e \<Rightarrow> e | None \<Rightarrow> c)"
  have k: "keepsId (hc_id c) f" unfolding f_def by (rule keepsId_select)
  have e: "historyGroups (handleSelectConversation rnd c s)
         = promoteConversation (historyGroups s) (hc_id c) f"
    by (simp add: handleSelectConversation_def f_def)
  show ?thesis by (rule exI [of _ f]) (rule conjI [OF k e])
qed

lemma submit_call:
  "hasPendingInput s \<and> \<not> isGenerating s \<Longrightarrow>
   historyGroups (handleSubmit rnd s)
     = refreshHistoryPreview (activeConversationId s)
         (userContent (trim (input s)) (map copyAttachment (composerAttachments s)))
         (Some (activeConversationTitle s)) (historyGroups s)"
  by (simp add: handleSubmit_def Let_def)

lemma other_events_keep_history:
  "historyGroups (step rnd e s) = historyGroups s
   \<or> e = Submit \<or> e = NewChat \<or> (\<exists>c. e = SelectConversation c)"
  by (cases e)
     (simp_all add: addAttachmentFromFile_def handleRemoveAttachment_def handleCopyResolved_def
        handleCopyRejected_def copyTimeout_def toggleReaction_def replyTimeout_def selectProvider_def
        Let_def split: option.split)

lemma initial_entries:
  "conversations (initialState rnd) (lit ''today-1'') = Some (createInitialMessages rnd 0)"
  "conversations (initialState rnd) (lit ''today-2'')
     = Some (createPlaceholderConversation rnd 3 (lit ''Onboarding survey'')
         (lit ''Outlined questions that capture first-week friction and success signals.''))"
  "conversations (initialState rnd) (lit ''today-3'')
     = Some (createPlaceholderConversation rnd 4 (lit ''Design critique notes'')
         (lit ''Summarised feedback threads and grouped by priority / owner.''))"
  "conversations (initialState rnd) (lit ''week-1'')
     = Some (createPlaceholderConversation rnd 5 (lit ''Support triage ideas'')
         (lit ''Generated macros for the top friction requests from this week.''))"
  "conversations (initialState rnd) (lit ''week-2'')
     = Some (createPlaceholderConversation rnd 6 (lit ''Growth experiment doc'')
         (lit ''Mapped out hypotheses, guardrail metrics, and rollout cadence.''))"
  by (simp_all add: initial_conversations lit_def)

lemma initial_placeholders:
  assumes "c \<in> set (allSummaries historySeed)" and "hc_id c \<noteq> lit ''today-1''"
  shows "\<exists>d. conversations (initialState rnd) (hc_id c)
            = Some (createPlaceholderConversation rnd d (hc_title c) (hc_preview c))"
proof -
  have p: "\<exists>d. conversations (initialState rnd) (lit ''today-2'')
     = Some (createPlaceholderConversation rnd d (lit ''Onboarding survey'')
         (lit ''Outlined questions that capture first-week friction and success signals.''))"
    "\<exists>d. conversations (initialState rnd) (lit ''today-3'')
     = Some (createPlaceholderConversation rnd d (lit ''Design critique notes'')
         (lit ''Summarised feedback threads and grouped by priority / owner.''))"
    "\<exists>d. conversations (initialState rnd) (lit ''week-1'')
     = Some (createPlaceholderConversation rnd d (lit ''Support triage ideas'')
         (lit ''Generated macros for the top friction requests from this week.''))"
    "\<exists>d. conversations (initialState rnd) (lit ''week-2'')
     = Some (createPlaceholderConversation rnd d (lit ''Growth experiment doc'')
         (lit ''Mapped out hypotheses, guardrail metrics, and rollout cadence.''))"
    by (rule exI, rule initial_entries)+
  have "list_all (\<lambda>c. hc_id c \<noteq> lit ''today-1'' \<longrightarrow>
          (\<exists>d. conversations (initialState rnd) (hc_id c)
            = Some (createPlaceholderConversation rnd d (hc_title c) (hc_preview c))))
        (allSummaries historySeed)"
    by (simp add: allSummaries_def historySeed_def p)
  with assms show ?thesis by (simp add: list_all_iff)
qed

lemma initial_contents:
  "map msg_content (createInitialMessages rnd d) = map tpl_content messageTemplates"
  "map msg_role (createInitialMessages rnd d) = map tpl_role messageTemplates"
  by (simp_all add: createInitialMessages_def messageTemplates_def)

lemma primaryIdOf_historySeed: "primaryIdOf historySeed = Some (lit ''today-1'')"
  by (simp add: primaryIdOf_def historySeed_def)

lemma select_listed:
  assumes "reachable rnd s" and "hc_id c \<in> set (allIds (historyGroups s))"
  shows "conversations (handleSelectConversation rnd c s) = conversations s"
proof -
  from assms(1) have "historyBacked s" by (rule reachable_historyBacked)
  with assms(2) have "conversations s (hc_id c) \<noteq> None" by (auto simp add: historyBacked_def)
  then show ?thesis by (rule select_present)
qed

subsection \<open>Messages once appended\<close>

lemma conversationOf_cong: "conversations t' = conversations t \<Longrightarrow> conversationOf t' c = conversationOf t c"
  by (simp add: conversationOf_def)

lemma conversationOf_replyTimeout:
  "conversationOf (replyTimeout h t) c =
     (case map_of (replyTimers t) h of
        None \<Rightarrow> conversationOf t c
      | Some (c', m) \<Rightarrow> if c = c' then conversationOf t c @ [m] else conversationOf t c)"
  by (simp add: replyTimeout_def conversationOf_def updateConversationMessages_def
        split: option.split prod.split)

lemma conversationOf_handleNewChat:
  "c \<noteq> createId (rnd (draws t)) \<Longrightarrow> conversationOf (handleNewChat rnd t) c = conversationOf t c"
  by (simp add: handleNewChat_def conversationOf_def Let_def)

lemma conversationOf_handleSelectConversation:
  "conversationOf t c \<noteq> [] \<Longrightarrow> conversationOf (handleSelectConversation rnd c' t) c = conversationOf t c"
  by (auto simp add: handleSelectConversation_def conversationOf_def split: option.splits)

lemma conversationOf_handleSubmit_prefix:
  "\<exists>ys. conversationOf (handleSubmit rnd t) c = conversationOf t c @ ys"
proof (cases "hasPendingInput t \<and> \<not> isGenerating t")
  case True
  then show ?thesis by (simp add: conversationOf_handleSubmit)
next
  case False
  then have "handleSubmit rnd t = t" by (auto simp add: handleSubmit_def)
  then show ?thesis by simp
qed

lemma keepsMessage_append:
  "keepsMessage k m c t \<Longrightarrow> conversationOf t' c = conversationOf t c @ ys \<Longrightarrow> keepsMessage k m c t'"
  by (simp add: keepsMessage_def nth_append)

lemma keepsMessage_same:
  "keepsMessage k m c t \<Longrightarrow> conversationOf t' c = conversationOf t c \<Longrightarrow> keepsMessage k m c t'"
  by (simp add: keepsMessage_def)

lemma keepsMessage_toggle:
  assumes "keepsMessage k m c t"
  shows "keepsMessage k m c (toggleReaction messageId reaction t)"
proof (cases "c = activeConversationId t")
  case False
  then have "conversationOf (toggleReaction messageId reaction t) c = conversationOf t c"
    by (simp add: conversationOf_toggleReaction)
  with assms show ?thesis by (rule keepsMessage_same)
next
  case True
  from assms have k: "k < length (conversationOf t c)"
    and m: "(conversationOf t c ! k)\<lparr>msg_reaction := None\<rparr> = m"
    by (simp_all add: keepsMessage_def)
  have c: "conversationOf (toggleReaction messageId reaction t) c
             = toggleMessages messageId reaction (conversationOf t c)"
    using True by (simp add: conversationOf_toggleReaction)
  have "(toggleMessages messageId reaction (conversationOf t c) ! k)\<lparr>msg_reaction := None\<rparr> = m"
    using k m by (simp add: nth_toggleMessages)
  with k show ?thesis by (simp add: keepsMessage_def c)
qed

lemma keepsMessage_step:
  assumes "keepsMessage k m c t" and "e = NewChat \<longrightarrow> createId (rnd (draws t)) \<noteq> c"
  shows "keepsMessage k m c (step rnd e t)"
proof (cases e)
  case Submit
  obtain ys where "conversationOf (handleSubmit rnd t) c = conversationOf t c @ ys"
    using conversationOf_handleSubmit_prefix by blast
  with assms(1) Submit show ?thesis by (simp add: keepsMessage_append)
next
  case (ReplyTimeout h)
  have "\<exists>ys. conversationOf (replyTimeout h t) c = conversationOf t c @ ys"
    by (simp add: conversationOf_replyTimeout split: option.split prod.split)
  then obtain ys where "conversationOf (replyTimeout h t) c = conversationOf t c @ ys" by blast
  with assms(1) ReplyTimeout show ?thesis by (simp add: keepsMessage_append)
next
  case (ToggleReaction messageId reaction)
  with assms(1) show ?thesis by (simp add: keepsMessage_toggle)
next
  case NewChat
  with assms(2) have "c \<noteq> createId (rnd (draws t))" by auto
  then have "conversationOf (handleNewChat rnd t) c = conversationOf t c"
    by (rule conversationOf_handleNewChat)
  with assms(1) NewChat show ?thesis by (simp add: keepsMessage_same)
next
  case (SelectConversation c')
  from assms(1) have "conversationOf t c \<noteq> []" by (auto simp add: keepsMessage_def)
  then have "conversationOf (handleSelectConversation rnd c' t) c = conversationOf t c"
    by (rule conversationOf_handleSelectConversation)
  with assms(1) SelectConversation show ?thesis by (simp add: keepsMessage_same)
next
  case (FileLoaded f r)
  have "conversationOf (addAttachmentFromFile rnd f r t) c = conversationOf t c"
    by (rule conversationOf_cong) (simp add: addAttachmentFromFile_def split: option.split)
  with assms(1) FileLoaded show ?thesis by (simp add: keepsMessage_same)
next
  case (CopyTimeout h)
  have "conversationOf (copyTimeout h t) c = conversationOf t c"
    by (rule conversationOf_cong) (simp add: copyTimeout_def split: option.split)
  with assms(1) CopyTimeout show ?thesis by (simp add: keepsMessage_same)
next
  case (SetInput v)
  with assms(1) show ?thesis by (simp add: keepsMessage_def conversationOf_def)
next
  case (RemoveAttachment a)
  with assms(1) show ?thesis by (simp add: keepsMessage_def conversationOf_def handleRemoveAttachment_def)
next
  case (CopyResolved x)
  with assms(1) show ?thesis by (simp add: keepsMessage_def conversationOf_def handleCopyResolved_def)
next
  case CopyRejected
  with assms(1) show ?thesis by (simp add: keepsMessage_def conversationOf_def handleCopyRejected_def)
next
  case (SelectProvider p)
  with assms(1) show ?thesis by (simp add: keepsMessage_def conversationOf_def selectProvider_def Let_def)
next
  case (SelectModel p)
  with assms(1) show ?thesis by (simp add: keepsMessage_def conversationOf_def)
next
  case (SetSidebarOpen b)
  with assms(1) show ?thesis by (simp add: keepsMessage_def conversationOf_def)
qed

lemma draws_step: "draws t \<le> draws (step rnd e t)"
  by (cases e)
     (simp_all add: handleRemoveAttachment_def handleCopyResolved_def handleCopyRejected_def
        toggleReaction_def handleNewChat_def handleSelectConversation_def selectProvider_def Let_def
        replyTimeout_def handleSubmit_def addAttachmentFromFile_def copyTimeout_def
        split: option.split prod.split)

lemma keepsMessage_run:
  "keepsMessage k m c t \<Longrightarrow>
   NewChat \<in> set evs \<longrightarrow> (\<forall>n. draws t \<le> n \<longrightarrow> createId (rnd n) \<noteq> c) \<Longrightarrow>
   keepsMessage k m c (run rnd evs t)"
proof (induction evs arbitrary: t)
  case Nil
  then show ?case by simp
next
  case (Cons e es)
  have "e = NewChat \<longrightarrow> createId (rnd (draws t)) \<noteq> c"
    using Cons.prems(2) by auto
  with Cons.prems(1) have k: "keepsMessage k m c (step rnd e t)" by (rule keepsMessage_step)
  have d: "draws t \<le> draws (step rnd e t)" by (rule draws_step)
  have "NewChat \<in> set es \<longrightarrow> (\<forall>n. draws (step rnd e t) \<le> n \<longrightarrow> createId (rnd n) \<noteq> c)"
    using Cons.prems(2) d by auto
  with k have "keepsMessage k m c (run rnd es (step rnd e t))" by (rule Cons.IH)
  then show ?case by simp
qed

lemma showNat_digits: "showNat n \<noteq> [] \<and> (\<forall>c \<in> set (showNat n). 48 \<le> c \<and> c \<le> 57)"
proof (induction n rule: showNat.induct)
  case (1 n)
  show ?case
  proof (cases "n < 10")
    case True
    then show ?thesis by (subst showNat.simps, subst (2) showNat.simps) simp
  next
    case False
    then have s: "showNat n = showNat (n div 10) @ [48 + n mod 10]"
      by (subst showNat.simps) simp
    have "n mod 10 < 10" by simp
    then have "48 + n mod 10 \<le> 57" by linarith
    with 1 False show ?thesis unfolding s by auto
  qed
qed

lemma createId_sampleDraws_digits: "116 \<notin> set (createId (sampleDraws n))"
proof
  assume "116 \<in> set (createId (sampleDraws n))"
  then have "116 \<in> set (take 8 (showNat n))"
    by (simp add: createId_def sampleDraws_def lit_def)
  then have "116 \<in> set (showNat n)" by (rule in_set_takeD)
  with showNat_digits [of n] show False by auto
qed

lemma createId_sampleDraws_not_seed: "createId (sampleDraws n) \<noteq> lit ''today-1''"
proof
  assume "createId (sampleDraws n) = lit ''today-1''"
  then have "116 \<in> set (createId (sampleDraws n))" by (simp add: lit_def)
  with createId_sampleDraws_digits show False by blast
qed

lemma sampleStaged_buffer:
  "composerAttachments sampleStaged =
     [\<lparr>att_id = lit ''7'', att_name = lit ''shot.png'', att_type = lit ''image/png'',
       att_size = 2048, att_preview = lit ''data:image/png;base64,AAAA''\<rparr>]"
  "activeConversationId sampleStaged = lit ''today-1''"
  by (simp_all add: sampleStaged_def addAttachmentFromFile_def initial_fields initial_active
        createId_sampleDraws lit_def)

text \<open>
  The user message of an accepted submit stays at its index, up to its reaction, whatever
  events follow, unless a later new chat draws the identifier of its conversation:
  \<open>handleNewChat\<close> then replaces the entry of the conversation store.
\<close>

lemma sent_message_kept:
  assumes "hasPendingInput s" and "\<not> isGenerating s"
    and "NewChat \<in> set evs \<longrightarrow>
           (\<forall>n. draws s + 2 \<le> n \<longrightarrow> createId (rnd n) \<noteq> activeConversationId s)"
  shows "composerAttachments (handleSubmit rnd s) = []
       \<and> length (conversationOf s (activeConversationId s))
           < length (conversationOf (run rnd evs (handleSubmit rnd s)) (activeConversationId s))
       \<and> (conversationOf (run rnd evs (handleSubmit rnd s)) (activeConversationId s)
            ! length (conversationOf s (activeConversationId s)))\<lparr>msg_reaction := None\<rparr>
         = \<lparr>msg_id = createId (rnd (draws s)), msg_role = User, msg_name = lit ''You'',
            msg_avatarFallback = lit ''YO'', msg_avatarUrl = None,
            msg_content = userContent (trim (input s)) (composerAttachments s), msg_markdown = None,
            msg_attachments = (if composerAttachments s \<noteq> [] then Some (composerAttachments s) else None),
            msg_reaction = None\<rparr>"
proof -
  define c where "c = activeConversationId s"
  define k where "k = length (conversationOf s c)"
  define m where "m = \<lparr>msg_id = createId (rnd (draws s)), msg_role = User, msg_name = lit ''You'',
            msg_avatarFallback = lit ''YO'', msg_avatarUrl = None,
            msg_content = userContent (trim (input s)) (composerAttachments s), msg_markdown = None,
            msg_attachments = (if composerAttachments s \<noteq> [] then Some (composerAttachments s) else None),
            msg_reaction = None\<rparr>"
  have buffer: "composerAttachments (handleSubmit rnd s) = []"
    using assms(1,2) by (simp add: handleSubmit_def Let_def)
  have d: "draws (handleSubmit rnd s) = draws s + 2"
    using assms(1,2) by (simp add: handleSubmit_def Let_def)
  have "conversationOf (handleSubmit rnd s) c = conversationOf s c @ [m]"
    using assms(1,2) by (simp add: conversationOf_handleSubmit c_def m_def)
  then have start: "keepsMessage k m c (handleSubmit rnd s)"
    by (simp add: keepsMessage_def k_def m_def)
  have "NewChat \<in> set evs \<longrightarrow> (\<forall>n. draws (handleSubmit rnd s) \<le> n \<longrightarrow> createId (rnd n) \<noteq> c)"
    using assms(3) by (simp add: d c_def)
  with start have "keepsMessage k m c (run rnd evs (handleSubmit rnd s))"
    by (rule keepsMessage_run)
  then show ?thesis
    using buffer by (simp add: keepsMessage_def k_def c_def m_def)
qed

subsection \<open>The attachment buffer on the store\<close>

lemma objectAt_append: "objectAt h r = Some a \<Longrightarrow> objectAt (h @ ys) r = Some a"
  by (auto simp: objectAt_def nth_append split: if_splits)

lemma arrayAt_append: "arrayAt h r = Some rs \<Longrightarrow> arrayAt (h @ ys) r = Some rs"
  by (auto simp: arrayAt_def nth_append split: if_splits)

lemma objectAt_below: "objectAt h r = Some a \<Longrightarrow> r < length h"
  by (simp add: objectAt_def split: if_splits)

lemma arrayAt_below: "arrayAt h r = Some rs \<Longrightarrow> r < length h"
  by (simp add: arrayAt_def split: if_splits)

lemma objectAt_new [simp]: "objectAt (h @ [AttachmentObject a]) (length h) = Some a"
  by (simp add: objectAt_def)

lemma arrayAt_new [simp]: "arrayAt (h @ [AttachmentArray rs]) (length h) = Some rs"
  by (simp add: arrayAt_def)

lemma readObjects_append: "readObjects h rs = Some vs \<Longrightarrow> readObjects (h @ ys) rs = Some vs"
proof (induction rs arbitrary: vs)
  case Nil
  then show ?case by simp
next
  case (Cons r rs)
  then show ?case by (auto simp: objectAt_append split: option.splits)
qed

lemma readObjects_below: "readObjects h rs = Some vs \<Longrightarrow> \<forall>r \<in> set rs. r < length h"
proof (induction rs arbitrary: vs)
  case Nil
  then show ?case by simp
next
  case (Cons r rs)
  then show ?case by (auto simp: objectAt_below split: option.splits)
qed

lemma readObjects_length: "readObjects h rs = Some vs \<Longrightarrow> length vs = length rs"
proof (induction rs arbitrary: vs)
  case Nil
  then show ?case by simp
next
  case (Cons r rs)
  then show ?case by (auto split: option.splits)
qed

lemma readObjects_snoc:
  "readObjects h rs = Some vs \<Longrightarrow> objectAt h r = Some a \<Longrightarrow> readObjects h (rs @ [r]) = Some (vs @ [a])"
proof (induction rs arbitrary: vs)
  case Nil
  then show ?case by simp
next
  case (Cons r' rs)
  then show ?case by (auto split: option.splits)
qed

lemma readObjects_update:
  "a \<notin> set rs \<Longrightarrow> readObjects (h[a := c]) rs = readObjects h rs"
proof (induction rs)
  case Nil
  then show ?case by simp
next
  case (Cons r rs)
  then have "objectAt (h[a := c]) r = objectAt h r" by (auto simp: objectAt_def)
  with Cons show ?case by (simp split: option.splits)
qed

lemma readAttachments_append:
  "readAttachments h r = Some vs \<Longrightarrow> readAttachments (h @ ys) r = Some vs"
  by (auto simp: readAttachments_def arrayAt_append readObjects_append split: option.splits)

lemma cellsOf_append:
  "readAttachments h r = Some vs \<Longrightarrow> cellsOf (h @ ys) r = cellsOf h r"
  by (auto simp: readAttachments_def cellsOf_def arrayAt_append split: option.splits)

lemma cellsOf_below:
  "readAttachments h r = Some vs \<Longrightarrow> \<forall>a \<in> set (cellsOf h r). a < length h"
  using readObjects_below
  by (auto simp: readAttachments_def cellsOf_def arrayAt_below split: option.splits)

lemma readAttachments_update:
  assumes "a \<notin> set (cellsOf h r)"
  shows "readAttachments (h[a := c]) r = readAttachments h r"
proof (cases "arrayAt h r")
  case None
  from assms have "a \<noteq> r" by (simp add: cellsOf_def None)
  then have "arrayAt (h[a := c]) r = arrayAt h r" by (simp add: arrayAt_def)
  then show ?thesis by (simp add: readAttachments_def None)
next
  case (Some rs)
  from assms have "a \<noteq> r" "a \<notin> set rs" by (simp_all add: cellsOf_def Some)
  from this(1) have "arrayAt (h[a := c]) r = arrayAt h r" by (simp add: arrayAt_def)
  then show ?thesis using readObjects_update [OF \<open>a \<notin> set rs\<close>] by (simp add: readAttachments_def Some)
qed

lemma copyAttachments_h_explicit:
  "readObjects h rs = Some vs \<Longrightarrow>
   copyAttachments_h h rs
     = Some ([length h ..< length h + length vs], h @ map (\<lambda>a. AttachmentObject (copyAttachment a)) vs)"
proof (induction rs arbitrary: h vs)
  case Nil
  then show ?case by simp
next
  case (Cons r rs)
  from Cons.prems obtain a ws where a: "objectAt h r = Some a" and ws: "readObjects h rs = Some ws"
    and vs: "vs = a # ws"
    by (auto split: option.splits)
  from ws have "readObjects (h @ [AttachmentObject (copyAttachment a)]) rs = Some ws"
    by (rule readObjects_append)
  from Cons.IH [OF this]
  have "copyAttachments_h (h @ [AttachmentObject (copyAttachment a)]) rs
     = Some ([Suc (length h) ..< Suc (length h) + length ws],
             h @ [AttachmentObject (copyAttachment a)] @ map (\<lambda>a. AttachmentObject (copyAttachment a)) ws)"
    by (simp del: upt_Suc)
  then show ?case
    by (simp add: a vs newCell_def upt_conv_Cons del: upt_Suc)
qed

lemma readObjects_copies:
  "readObjects (h @ map (\<lambda>a. AttachmentObject (copyAttachment a)) vs) [length h ..< length h + length vs]
     = Some vs"
proof (induction vs arbitrary: h)
  case Nil
  then show ?case by simp
next
  case (Cons v vs)
  have "readObjects ((h @ [AttachmentObject v]) @ map (\<lambda>a. AttachmentObject (copyAttachment a)) vs)
          [length (h @ [AttachmentObject v]) ..< length (h @ [AttachmentObject v]) + length vs] = Some vs"
    by (rule Cons.IH)
  moreover have "objectAt (h @ AttachmentObject v # map (\<lambda>a. AttachmentObject a) vs) (length h) = Some v"
    by (simp add: objectAt_def)
  ultimately show ?case by (simp add: upt_conv_Cons del: upt_Suc)
qed

lemma drainAttachments_h_explicit:
  assumes "readAttachments h buffer = Some vs"
  shows "drainAttachments_h h buffer
     = Some (length h + length vs,
             h @ map (\<lambda>a. AttachmentObject (copyAttachment a)) vs
               @ [AttachmentArray [length h ..< length h + length vs]])"
proof -
  from assms obtain rs where rs: "arrayAt h buffer = Some rs" and vs: "readObjects h rs = Some vs"
    by (auto simp: readAttachments_def split: option.splits)
  show ?thesis
    by (simp add: drainAttachments_h_def rs copyAttachments_h_explicit [OF vs] newCell_def
          del: copyAttachment_id)
qed

lemma readAttachments_drained:
  "readAttachments (h @ map (\<lambda>a. AttachmentObject (copyAttachment a)) vs
                      @ [AttachmentArray [length h ..< length h + length vs]]) (length h + length vs)
     = Some vs"
proof -
  have "arrayAt ((h @ map (\<lambda>a. AttachmentObject (copyAttachment a)) vs)
                   @ [AttachmentArray [length h ..< length h + length vs]])
          (length (h @ map (\<lambda>a. AttachmentObject (copyAttachment a)) vs))
        = Some [length h ..< length h + length vs]"
    by (rule arrayAt_new)
  then have a: "arrayAt (h @ map (\<lambda>a. AttachmentObject (copyAttachment a)) vs
                   @ [AttachmentArray [length h ..< length h + length vs]]) (length h + length vs)
        = Some [length h ..< length h + length vs]"
    by simp
  have "readObjects ((h @ map (\<lambda>a. AttachmentObject (copyAttachment a)) vs)
                   @ [AttachmentArray [length h ..< length h + length vs]]) [length h ..< length h + length vs]
        = Some vs"
    using readObjects_copies by (rule readObjects_append)
  then show ?thesis unfolding readAttachments_def a by simp
qed

lemma cellsOf_drained:
  "cellsOf (h @ map (\<lambda>a. AttachmentObject (copyAttachment a)) vs
                      @ [AttachmentArray [length h ..< length h + length vs]]) (length h + length vs)
     = (length h + length vs) # [length h ..< length h + length vs]"
proof -
  have "arrayAt ((h @ map (\<lambda>a. AttachmentObject (copyAttachment a)) vs)
                   @ [AttachmentArray [length h ..< length h + length vs]])
          (length (h @ map (\<lambda>a. AttachmentObject (copyAttachment a)) vs))
        = Some [length h ..< length h + length vs]"
    by (rule arrayAt_new)
  then show ?thesis by (simp add: cellsOf_def)
qed

lemma keepOthers_h_reads:
  "readObjects h rs = Some vs \<Longrightarrow>
   \<exists>kept. keepOthers_h h attachmentId rs = Some kept \<and> set kept \<subseteq> set rs
     \<and> readObjects h kept = Some (filter (\<lambda>attachment. att_id attachment \<noteq> attachmentId) vs)"
proof (induction rs arbitrary: vs)
  case Nil
  then show ?case by simp
next
  case (Cons r rs)
  from Cons.prems obtain a ws where a: "objectAt h r = Some a" and ws: "readObjects h rs = Some ws"
    and vs: "vs = a # ws"
    by (auto split: option.splits)
  from Cons.IH [OF ws] obtain kept where k: "keepOthers_h h attachmentId rs = Some kept"
    "set kept \<subseteq> set rs"
    "readObjects h kept = Some (filter (\<lambda>attachment. att_id attachment \<noteq> attachmentId) ws)"
    by blast
  show ?case using a k vs by auto
qed

lemma bufferApart_clear:
  assumes "\<forall>a \<in> D. a < length h" and "composerAttachments s = []"
  shows "bufferApart D s (clearAttachments_h h)"
  using assms
  by (auto simp: bufferApart_def clearAttachments_h_def newCell_def readAttachments_def cellsOf_def)

lemma stage_apart:
  assumes "bufferApart D s (b, h)"
  shows "\<exists>b' ys. stageAttachment_h (createId (rnd (draws s))) file dataUrl h b = Some (b', h @ ys)
           \<and> bufferApart D (addAttachmentFromFile rnd file (Some dataUrl) s) (b', h @ ys)"
proof -
  from assms obtain rs where rs: "arrayAt h b = Some rs"
    and vs: "readObjects h rs = Some (composerAttachments s)"
    by (auto simp: bufferApart_def readAttachments_def split: option.splits)
  from assms have D: "\<forall>a \<in> D. a < length h" and apart: "set (b # rs) \<inter> D = {}"
    by (simp_all add: bufferApart_def cellsOf_def rs)
  define a where "a = \<lparr>att_id = createId (rnd (draws s)),
                   att_name = (if file_name file \<noteq> [] then file_name file
                               else lit ''pasted-image-'' @ showNat (length rs + 1) @ lit ''.png''),
                   att_type = file_type file,
                   att_size = file_size file,
                   att_preview = dataUrl\<rparr>"
  have st: "stageAttachment_h (createId (rnd (draws s))) file dataUrl h b
      = Some (Suc (length h), h @ [AttachmentObject a, AttachmentArray (rs @ [length h])])"
    by (simp add: stageAttachment_h_def rs newCell_def a_def)
  have len: "length rs = length (composerAttachments s)"
    using readObjects_length [OF vs] by simp
  have buf: "composerAttachments (addAttachmentFromFile rnd file (Some dataUrl) s)
      = composerAttachments s @ [a]"
    by (simp add: addAttachmentFromFile_def a_def len)
  have "readObjects (h @ [AttachmentObject a]) rs = Some (composerAttachments s)"
    using vs by (rule readObjects_append)
  then have "readObjects (h @ [AttachmentObject a]) (rs @ [length h]) = Some (composerAttachments s @ [a])"
    by (rule readObjects_snoc) simp
  then have "readObjects ((h @ [AttachmentObject a]) @ [AttachmentArray (rs @ [length h])]) (rs @ [length h])
      = Some (composerAttachments s @ [a])"
    by (rule readObjects_append)
  moreover have arr: "arrayAt ((h @ [AttachmentObject a]) @ [AttachmentArray (rs @ [length h])])
         (length (h @ [AttachmentObject a])) = Some (rs @ [length h])"
    by (rule arrayAt_new)
  ultimately have rd: "readAttachments (h @ [AttachmentObject a, AttachmentArray (rs @ [length h])]) (Suc (length h))
      = Some (composerAttachments s @ [a])"
    by (simp add: readAttachments_def)
  have cells: "cellsOf (h @ [AttachmentObject a, AttachmentArray (rs @ [length h])]) (Suc (length h))
      = Suc (length h) # rs @ [length h]"
    using arr by (simp add: cellsOf_def)
  have "bufferApart D (addAttachmentFromFile rnd file (Some dataUrl) s)
          (Suc (length h), h @ [AttachmentObject a, AttachmentArray (rs @ [length h])])"
    unfolding bufferApart_def using rd cells D apart buf by fastforce
  with st show ?thesis by blast
qed

lemma remove_apart:
  assumes "bufferApart D s (b, h)"
  shows "\<exists>b' ys. removeAttachment_h attachmentId h b = Some (b', h @ ys)
           \<and> bufferApart D (handleRemoveAttachment attachmentId s) (b', h @ ys)"
proof -
  from assms obtain rs where rs: "arrayAt h b = Some rs"
    and vs: "readObjects h rs = Some (composerAttachments s)"
    by (auto simp: bufferApart_def readAttachments_def split: option.splits)
  from assms have D: "\<forall>a \<in> D. a < length h" and apart: "set (b # rs) \<inter> D = {}"
    by (simp_all add: bufferApart_def cellsOf_def rs)
  from keepOthers_h_reads [OF vs] obtain kept where k: "keepOthers_h h attachmentId rs = Some kept"
    "set kept \<subseteq> set rs"
    "readObjects h kept = Some (filter (\<lambda>attachment. att_id attachment \<noteq> attachmentId) (composerAttachments s))"
    by blast
  have st: "removeAttachment_h attachmentId h b = Some (length h, h @ [AttachmentArray kept])"
    by (simp add: removeAttachment_h_def rs k(1) newCell_def)
  have "readObjects (h @ [AttachmentArray kept]) kept
      = Some (filter (\<lambda>attachment. att_id attachment \<noteq> attachmentId) (composerAttachments s))"
    using k(3) by (rule readObjects_append)
  then have rd: "readAttachments (h @ [AttachmentArray kept]) (length h)
      = Some (composerAttachments (handleRemoveAttachment attachmentId s))"
    by (simp add: readAttachments_def handleRemoveAttachment_def)
  have cells: "cellsOf (h @ [AttachmentArray kept]) (length h) = length h # kept"
    by (simp add: cellsOf_def)
  have "bufferApart D (handleRemoveAttachment attachmentId s) (length h, h @ [AttachmentArray kept])"
    unfolding bufferApart_def using rd cells D apart k(2) by fastforce
  with st show ?thesis by blast
qed

lemma clear_apart:
  assumes "\<forall>a \<in> D. a < length h" and "composerAttachments s' = []"
  shows "\<exists>b' ys. clearAttachments_h h = (b', h @ ys) \<and> bufferApart D s' (b', h @ ys)"
proof -
  have "clearAttachments_h h = (length h, h @ [AttachmentArray []])"
    by (simp add: clearAttachments_h_def newCell_def)
  moreover have "bufferApart D s' (clearAttachments_h h)"
    using assms by (rule bufferApart_clear)
  ultimately show ?thesis by metis
qed

lemma submit_apart:
  assumes "bufferApart D s (b, h)"
  shows "\<exists>b' ys. step_h rnd Submit s (b, h) = Some (b', h @ ys)
           \<and> bufferApart D (handleSubmit rnd s) (b', h @ ys)"
proof (cases "\<not> hasPendingInput s \<or> isGenerating s")
  case True
  then have "step_h rnd Submit s (b, h) = Some (b, h @ [])" "handleSubmit rnd s = s"
    by (simp_all add: handleSubmit_def)
  then show ?thesis using assms by (metis append_Nil2)
next
  case False
  from assms have rd: "readAttachments h b = Some (composerAttachments s)"
    and D: "\<forall>a \<in> D. a < length h"
    by (simp_all add: bufferApart_def)
  define h1 where "h1 = h @ map (\<lambda>a. AttachmentObject (copyAttachment a)) (composerAttachments s)
               @ [AttachmentArray [length h ..< length h + length (composerAttachments s)]]"
  have dr: "drainAttachments_h h b = Some (length h + length (composerAttachments s), h1)"
    unfolding h1_def by (rule drainAttachments_h_explicit [OF rd])
  have st: "step_h rnd Submit s (b, h) = Some (clearAttachments_h h1)"
    using False by (simp add: dr)
  have e: "composerAttachments (handleSubmit rnd s) = []"
    using False by (simp add: handleSubmit_def Let_def)
  from D have "\<forall>a \<in> D. a < length h1" by (auto simp: h1_def)
  from clear_apart [OF this e] obtain b' ys where
    "clearAttachments_h h1 = (b', h1 @ ys)" "bufferApart D (handleSubmit rnd s) (b', h1 @ ys)"
    by blast
  then have "step_h rnd Submit s (b, h) = Some (b', h @ (map (\<lambda>a. AttachmentObject (copyAttachment a)) (composerAttachments s)
               @ [AttachmentArray [length h ..< length h + length (composerAttachments s)]] @ ys))"
    "bufferApart D (handleSubmit rnd s) (b', h @ (map (\<lambda>a. AttachmentObject (copyAttachment a)) (composerAttachments s)
               @ [AttachmentArray [length h ..< length h + length (composerAttachments s)]] @ ys))"
    using st by (simp_all add: h1_def)
  then show ?thesis by blast
qed

lemma step_apart:
  assumes "bufferApart D s (b, h)"
  shows "\<exists>b' ys. step_h rnd e s (b, h) = Some (b', h @ ys) \<and> bufferApart D (step rnd e s) (b', h @ ys)"
proof -
  from assms have D: "\<forall>a \<in> D. a < length h" by (simp add: bufferApart_def)
  have same: "step_h rnd e s (b, h) = Some (b, h) \<Longrightarrow> composerAttachments (step rnd e s) = composerAttachments s
      \<Longrightarrow> ?thesis"
  proof -
    assume a: "step_h rnd e s (b, h) = Some (b, h)" "composerAttachments (step rnd e s) = composerAttachments s"
    from assms a(2) have "bufferApart D (step rnd e s) (b, h @ [])" by (simp add: bufferApart_def)
    with a(1) show ?thesis by (metis append_Nil2)
  qed
  show ?thesis
  proof (cases e)
    case (SetInput v)
    then show ?thesis by (intro same) simp_all
  next
    case (FileLoaded info result)
    show ?thesis
    proof (cases result)
      case None
      with FileLoaded show ?thesis by (intro same) (simp_all add: addAttachmentFromFile_def)
    next
      case (Some dataUrl)
      with FileLoaded stage_apart [OF assms, of rnd info dataUrl] show ?thesis by simp
    qed
  next
    case (RemoveAttachment attachmentId)
    with remove_apart [OF assms, of attachmentId] show ?thesis by simp
  next
    case (CopyResolved message)
    then show ?thesis by (intro same) (simp_all add: handleCopyResolved_def)
  next
    case CopyRejected
    then show ?thesis by (intro same) (simp_all add: handleCopyRejected_def)
  next
    case (CopyTimeout t)
    then show ?thesis by (intro same) (simp_all add: copyTimeout_def split: option.splits)
  next
    case (ToggleReaction messageId reaction)
    then show ?thesis by (intro same) (simp_all add: toggleReaction_def Let_def)
  next
    case Submit
    with submit_apart [OF assms, of rnd] show ?thesis by simp
  next
    case (ReplyTimeout t)
    then show ?thesis by (intro same) (simp_all add: replyTimeout_def split: option.splits)
  next
    case NewChat
    have "composerAttachments (handleNewChat rnd s) = []" by (simp add: handleNewChat_def Let_def)
    from clear_apart [OF D this] NewChat show ?thesis by simp
  next
    case (SelectConversation conversation)
    have "composerAttachments (handleSelectConversation rnd conversation s) = []"
      by (simp add: handleSelectConversation_def)
    from clear_apart [OF D this] SelectConversation show ?thesis by simp
  next
    case (SelectProvider providerId)
    then show ?thesis by (intro same) (simp_all add: selectProvider_def Let_def)
  next
    case (SelectModel modelId)
    then show ?thesis by (intro same) simp_all
  next
    case (SetSidebarOpen v)
    then show ?thesis by (intro same) simp_all
  qed
qed

lemma run_apart:
  "bufferApart D s (b, h) \<Longrightarrow>
   \<exists>b' ys. run_h rnd evs s (b, h) = Some (b', h @ ys) \<and> bufferApart D (run rnd evs s) (b', h @ ys)"
proof (induction evs arbitrary: s b h)
  case Nil
  then have "run_h rnd [] s (b, h) = Some (b, h @ [])" "bufferApart D (run rnd [] s) (b, h @ [])"
    by simp_all
  then show ?case by blast
next
  case (Cons e es)
  from step_apart [OF Cons.prems, of rnd e] obtain b1 ys where
    s1: "step_h rnd e s (b, h) = Some (b1, h @ ys)" and a1: "bufferApart D (step rnd e s) (b1, h @ ys)"
    by blast
  from Cons.IH [OF a1] obtain b2 zs where
    "run_h rnd es (step rnd e s) (b1, h @ ys) = Some (b2, (h @ ys) @ zs)"
    "bufferApart D (run rnd es (step rnd e s)) (b2, (h @ ys) @ zs)"
    by blast
  then have "run_h rnd (e # es) s (b, h) = Some (b2, h @ (ys @ zs))"
    "bufferApart D (run rnd (e # es) s) (b2, h @ (ys @ zs))"
    using s1 by simp_all
  then show ?case by blast
qed

lemma handleSubmit_last_attachments:
  assumes "hasPendingInput s" and "\<not> isGenerating s"
  shows "msg_attachments (last (conversationOf (handleSubmit rnd s) (activeConversationId s)))
       = (if composerAttachments s \<noteq> [] then Some (composerAttachments s) else None)"
  using assms by (simp add: conversationOf_handleSubmit)

lemma sampleStore_reads: "readAttachments sampleStore 2 = Some (composerAttachments sampleStaged)"
  by (simp add: sampleStore_def readAttachments_def arrayAt_def objectAt_def sampleStaged_buffer)

lemma sampleStaged_draws: "draws sampleStaged = 8"
  by (simp add: sampleStaged_def addAttachmentFromFile_def initial_active)

section \<open>The claims\<close>

text \<open>
  C1, as amended. After an accepted submit, \<open>isGenerating\<close> stays true and every further
  submit request leaves the state unchanged for as long as no conversation is selected,
  no new chat is started and no reply timer runs. Selecting a conversation and starting
  a new chat each leave \<open>isGenerating\<close> false, whatever the state (\<open>handleNewChat\<close>
  and \<open>handleSelectConversation\<close> call \<open>setIsGenerating(false)\<close>).
\<close>

theorem generating_blocks_submit_until_reset:
  assumes "hasPendingInput s" and "\<not> isGenerating s"
    and "\<forall>e \<in> set evs. \<not> resetsGenerating e"
  shows "isGenerating (run rnd evs (handleSubmit rnd s))
       \<and> step rnd Submit (run rnd evs (handleSubmit rnd s)) = run rnd evs (handleSubmit rnd s)
       \<and> (\<forall>t c. \<not> isGenerating (step rnd (SelectConversation c) t))
       \<and> (\<forall>t. \<not> isGenerating (step rnd NewChat t))"
proof -
  have "isGenerating (handleSubmit rnd s)"
    using assms(1,2) by (rule isGenerating_handleSubmit)
  then have g: "isGenerating (run rnd evs (handleSubmit rnd s))"
    using assms(3) by (rule isGenerating_run)
  then have "handleSubmit rnd (run rnd evs (handleSubmit rnd s)) = run rnd evs (handleSubmit rnd s)"
    by (simp add: handleSubmit_def)
  then have b: "step rnd Submit (run rnd evs (handleSubmit rnd s)) = run rnd evs (handleSubmit rnd s)"
    by simp
  have r1: "\<forall>t c. \<not> isGenerating (step rnd (SelectConversation c) t)"
    by (simp add: handleSelectConversation_def)
  have r2: "\<forall>t. \<not> isGenerating (step rnd NewChat t)"
    by (simp add: handleNewChat_def Let_def)
  from g b r1 r2 show ?thesis by (intro conjI)
qed

theorem generating_blocks_submit_until_reset_witness:
  "hasPendingInput sampleTyped \<and> \<not> isGenerating sampleTyped
   \<and> list_all (\<lambda>e. \<not> resetsGenerating e)
        [SetInput (lit ''again''), SelectProvider (lit ''groq''), ToggleReaction (lit ''0'') Upvote]
   \<and> isGenerating (run sampleDraws
        [SetInput (lit ''again''), SelectProvider (lit ''groq''), ToggleReaction (lit ''0'') Upvote]
        (handleSubmit sampleDraws sampleTyped))
   \<and> step sampleDraws Submit (run sampleDraws
        [SetInput (lit ''again''), SelectProvider (lit ''groq''), ToggleReaction (lit ''0'') Upvote]
        (handleSubmit sampleDraws sampleTyped))
     = run sampleDraws
        [SetInput (lit ''again''), SelectProvider (lit ''groq''), ToggleReaction (lit ''0'') Upvote]
        (handleSubmit sampleDraws sampleTyped)
   \<and> \<not> isGenerating (step sampleDraws (SelectConversation sampleSeedEntry) (handleSubmit sampleDraws sampleTyped))
   \<and> \<not> isGenerating (step sampleDraws NewChat (handleSubmit sampleDraws sampleTyped))"
proof -
  have ev: "\<forall>e \<in> set [SetInput (lit ''again''), SelectProvider (lit ''groq''), ToggleReaction (lit ''0'') Upvote].
              \<not> resetsGenerating e"
    by simp
  have l: "list_all (\<lambda>e. \<not> resetsGenerating e)
        [SetInput (lit ''again''), SelectProvider (lit ''groq''), ToggleReaction (lit ''0'') Upvote]"
    by simp
  note th = generating_blocks_submit_until_reset [OF sampleTyped_facts(2,3) ev, where rnd = sampleDraws]
  note g = th [THEN conjunct1]
  note b = th [THEN conjunct2, THEN conjunct1]
  note r1 = th [THEN conjunct2, THEN conjunct2, THEN conjunct1, THEN spec, THEN spec,
      of sampleSeedEntry "handleSubmit sampleDraws sampleTyped"]
  note r2 = th [THEN conjunct2, THEN conjunct2, THEN conjunct2, THEN spec,
      of "handleSubmit sampleDraws sampleTyped"]
  from sampleTyped_facts(2,3) l g b r1 r2 show ?thesis by (intro conjI)
qed

text \<open>
  C1 as stated fails: after typing \<open>hello\<close>, submitting and starting a new chat, the
  reply timer with handle 0 is still pending, \<open>isGenerating\<close> is false, and a further
  submit is accepted.
\<close>

theorem generating_reset_counterexample:
  "hasPendingInput sampleTyped \<and> \<not> isGenerating sampleTyped
   \<and> isGenerating (run sampleDraws [Submit] sampleTyped)
   \<and> map_of (replyTimers (run sampleDraws [Submit, NewChat, SetInput (lit ''again'')] sampleTyped)) 0 \<noteq> None
   \<and> \<not> isGenerating (run sampleDraws [Submit, NewChat, SetInput (lit ''again'')] sampleTyped)
   \<and> step sampleDraws Submit (run sampleDraws [Submit, NewChat, SetInput (lit ''again'')] sampleTyped)
       \<noteq> run sampleDraws [Submit, NewChat, SetInput (lit ''again'')] sampleTyped"
proof -
  have g: "isGenerating (run sampleDraws [Submit] sampleTyped)"
    using sampleTyped_facts(2,3) by (simp add: isGenerating_handleSubmit)
  have below: "handlesBelow sampleTyped"
    using sampleTyped_facts(1) by (rule reachable_handlesBelow)
  have "map_of (replyTimers (handleSubmit sampleDraws sampleTyped)) (nextTimer sampleTyped) \<noteq> None"
    using replyTimers_handleSubmit [OF below sampleTyped_facts(2,3)] by simp
  then obtain x where "map_of (replyTimers (handleSubmit sampleDraws sampleTyped)) 0 = Some x"
    using sampleTyped_facts(4) by auto
  then have "map_of (replyTimers (run sampleDraws [NewChat, SetInput (lit ''again'')]
               (handleSubmit sampleDraws sampleTyped))) 0 = Some x"
    by (rule replyTimers_run) simp
  then have p: "map_of (replyTimers (run sampleDraws [Submit, NewChat, SetInput (lit ''again'')] sampleTyped)) 0 \<noteq> None"
    by simp
  have ng: "\<not> isGenerating (run sampleDraws [Submit, NewChat, SetInput (lit ''again'')] sampleTyped)"
    by (simp add: handleNewChat_def Let_def)
  have pend: "hasPendingInput (run sampleDraws [Submit, NewChat, SetInput (lit ''again'')] sampleTyped)"
    by (simp add: hasPendingInput_def trim_def lit_def isWhiteSpace_def)
  have "isGenerating (step sampleDraws Submit (run sampleDraws [Submit, NewChat, SetInput (lit ''again'')] sampleTyped))"
    unfolding step.simps using pend ng by (rule isGenerating_handleSubmit)
  with ng have diff: "step sampleDraws Submit (run sampleDraws [Submit, NewChat, SetInput (lit ''again'')] sampleTyped)
       \<noteq> run sampleDraws [Submit, NewChat, SetInput (lit ''again'')] sampleTyped"
    by metis
  show ?thesis using sampleTyped_facts(2,3) g p ng diff by blast
qed

text \<open>
  C2. For an accepted submit in a reachable state, whatever events happen before its
  timer runs (selecting another conversation and starting a new chat included), the
  callback of the timer appends exactly one message, an assistant message, at the end
  of the conversation that was active at submit time, leaves every other conversation as
  it is and sets \<open>isGenerating\<close> to false; the handle is then spent, so the callback never
  runs a second time.
\<close>

theorem reply_lands_in_submit_conversation:
  assumes "reachable rnd s" and "hasPendingInput s" and "\<not> isGenerating s"
    and "ReplyTimeout (nextTimer s) \<notin> set evs"
  shows "\<exists>m. msg_role m = Assistant
           \<and> conversationOf (step rnd (ReplyTimeout (nextTimer s)) (run rnd evs (handleSubmit rnd s)))
                 (activeConversationId s)
               = conversationOf (run rnd evs (handleSubmit rnd s)) (activeConversationId s) @ [m]
           \<and> (\<forall>c. c \<noteq> activeConversationId s \<longrightarrow>
                 conversationOf (step rnd (ReplyTimeout (nextTimer s)) (run rnd evs (handleSubmit rnd s))) c
                   = conversationOf (run rnd evs (handleSubmit rnd s)) c)
           \<and> \<not> isGenerating (step rnd (ReplyTimeout (nextTimer s)) (run rnd evs (handleSubmit rnd s)))
           \<and> (\<forall>later. step rnd (ReplyTimeout (nextTimer s))
                          (run rnd later (step rnd (ReplyTimeout (nextTimer s)) (run rnd evs (handleSubmit rnd s))))
                      = run rnd later (step rnd (ReplyTimeout (nextTimer s)) (run rnd evs (handleSubmit rnd s))))"
proof -
  define h where "h = nextTimer s"
  define t where "t = run rnd evs (handleSubmit rnd s)"
  define m where "m = \<lparr>msg_id = createId (rnd (Suc (draws s))), msg_role = Assistant, msg_name = lit ''Nova'',
            msg_avatarFallback = lit ''NO'', msg_avatarUrl = None,
            msg_content = assistantContent (providerSummary s) (map copyAttachment (composerAttachments s)),
            msg_markdown = Some True, msg_attachments = None, msg_reaction = None\<rparr>"
  have below: "handlesBelow s" using assms(1) by (rule reachable_handlesBelow)
  have "map_of (replyTimers (handleSubmit rnd s)) h = Some (activeConversationId s, m)"
    unfolding h_def m_def using below assms(2,3) by (rule replyTimers_handleSubmit)
  then have pending: "map_of (replyTimers t) h = Some (activeConversationId s, m)"
    unfolding t_def using assms(4) by (intro replyTimers_run) (simp_all add: h_def)
  have "h < nextTimer (handleSubmit rnd s)"
    using assms(2,3) by (simp add: h_def handleSubmit_def Let_def)
  also have "\<dots> \<le> nextTimer t" unfolding t_def by (rule nextTimer_run)
  finally have lt: "h < nextTimer t" .
  have spent: "spent h (replyTimeout h t)"
    using replyTimeout_fire(3,4) [OF pending] lt by (simp add: spent_def)
  have again: "\<And>later. replyTimeout h (run rnd later (replyTimeout h t)) = run rnd later (replyTimeout h t)"
    by (rule spent_noop) (rule spent_run [OF spent])
  have role: "msg_role m = Assistant" by (simp add: m_def)
  show ?thesis
    unfolding step.simps h_def [symmetric] t_def [symmetric]
    using role replyTimeout_fire(1,2) [OF pending] again
    by (intro exI [of _ m]) simp
qed

theorem reply_lands_in_submit_conversation_witness:
  "reachable sampleDraws sampleTyped \<and> hasPendingInput sampleTyped \<and> \<not> isGenerating sampleTyped
   \<and> ReplyTimeout (nextTimer sampleTyped) \<notin> set [NewChat, SetInput (lit ''more'')]
   \<and> activeConversationId (run sampleDraws [NewChat, SetInput (lit ''more'')] (handleSubmit sampleDraws sampleTyped))
       \<noteq> activeConversationId sampleTyped
   \<and> (\<exists>m. msg_role m = Assistant
         \<and> conversationOf (step sampleDraws (ReplyTimeout (nextTimer sampleTyped))
               (run sampleDraws [NewChat, SetInput (lit ''more'')] (handleSubmit sampleDraws sampleTyped)))
               (activeConversationId sampleTyped)
           = conversationOf (run sampleDraws [NewChat, SetInput (lit ''more'')] (handleSubmit sampleDraws sampleTyped))
               (activeConversationId sampleTyped) @ [m])"
proof -
  have ev: "ReplyTimeout (nextTimer sampleTyped) \<notin> set [NewChat, SetInput (lit ''more'')]" by simp
  have act: "activeConversationId sampleTyped = lit ''today-1''"
    by (simp add: sampleTyped_def initialState_def seedActiveConversationId_def primaryIdOf_def
          historySeed_def split: prod.split)
  have dr: "draws sampleTyped = 7"
    by (simp add: sampleTyped_def initialState_def buildInitialConversationMap_def primaryIdOf_def
          historySeed_def messageTemplates_def lit_def)
  have other: "activeConversationId (run sampleDraws [NewChat, SetInput (lit ''more'')] (handleSubmit sampleDraws sampleTyped))
       \<noteq> activeConversationId sampleTyped"
    using sampleTyped_facts(2,3)
    by (simp add: act handleNewChat_def handleSubmit_def Let_def dr sampleDraws_def createId_def
          showNat.simps lit_def)
  from reply_lands_in_submit_conversation [OF sampleTyped_facts(1,2,3) ev]
  obtain m where "msg_role m = Assistant"
    "conversationOf (step sampleDraws (ReplyTimeout (nextTimer sampleTyped))
               (run sampleDraws [NewChat, SetInput (lit ''more'')] (handleSubmit sampleDraws sampleTyped)))
               (activeConversationId sampleTyped)
           = conversationOf (run sampleDraws [NewChat, SetInput (lit ''more'')] (handleSubmit sampleDraws sampleTyped))
               (activeConversationId sampleTyped) @ [m]"
    by blast
  then show ?thesis using sampleTyped_facts ev other by blast
qed

text \<open>
  C3. Starting from an index in which no identifier occurs twice, after any sequence of
  \<open>promoteConversation\<close> calls no identifier occurs twice, the identifiers are those of
  the starting index together with the promoted ones, and each of them is held by exactly
  one group. A call is one whose factory computes the summary of the promoted
  conversation (\<open>keepsId\<close>), and every call of the source is of this kind:
  \<open>refreshHistoryPreview\<close>, \<open>handleNewChat\<close> and \<open>handleSelectConversation\<close> each
  promote with such a factory, an accepted submit promotes through
  \<open>refreshHistoryPreview\<close>, and no other event changes the index. So the same holds of
  the history index of every reachable state.
\<close>

theorem promote_sequence_keeps_ids_unique:
  assumes "distinct (allIds groups)"
    and "\<forall>call \<in> set calls. keepsId (fst call) (snd call)"
  shows "distinct (allIds (promoteAll groups calls))
       \<and> set (allIds (promoteAll groups calls)) = set (allIds groups) \<union> fst ` set calls
       \<and> (\<forall>cid \<in> set (allIds (promoteAll groups calls)).
             length (filter (holdsId cid) (promoteAll groups calls)) = 1)
       \<and> (\<forall>rnd s. reachable rnd s \<longrightarrow>
             distinct (allIds (historyGroups s))
             \<and> (\<forall>cid \<in> set (allIds (historyGroups s)).
                   length (filter (holdsId cid) (historyGroups s)) = 1))
       \<and> (\<forall>conversationId preview title previous.
             \<exists>updater. keepsId conversationId updater
               \<and> refreshHistoryPreview conversationId preview title previous
                   = promoteConversation previous conversationId updater)
       \<and> (\<forall>rnd s.
             \<exists>updater. keepsId (createId (rnd (draws s))) updater
               \<and> historyGroups (handleNewChat rnd s)
                   = promoteConversation (historyGroups s) (createId (rnd (draws s))) updater)
       \<and> (\<forall>rnd c s.
             \<exists>updater. keepsId (hc_id c) updater
               \<and> historyGroups (handleSelectConversation rnd c s)
                   = promoteConversation (historyGroups s) (hc_id c) updater)
       \<and> (\<forall>rnd s. hasPendingInput s \<and> \<not> isGenerating s \<longrightarrow>
             historyGroups (handleSubmit rnd s)
               = refreshHistoryPreview (activeConversationId s)
                   (userContent (trim (input s)) (map copyAttachment (composerAttachments s)))
                   (Some (activeConversationTitle s)) (historyGroups s))
       \<and> (\<forall>rnd e s. historyGroups (step rnd e s) = historyGroups s
             \<or> e = Submit \<or> e = NewChat \<or> (\<exists>c. e = SelectConversation c))"
proof -
  from assms(2) have "list_all (\<lambda>call. keepsId (fst call) (snd call)) calls"
    by (simp add: list_all_iff)
  from promoteAll_ids [OF assms(1) this]
  have d: "distinct (allIds (promoteAll groups calls))"
    and e: "set (allIds (promoteAll groups calls)) = set (allIds groups) \<union> fst ` set calls"
    by simp_all
  have o: "\<forall>cid \<in> set (allIds (promoteAll groups calls)).
          length (filter (holdsId cid) (promoteAll groups calls)) = 1"
    using one_group_holds [OF d] by blast
  have r: "\<forall>rnd s. reachable rnd s \<longrightarrow>
             distinct (allIds (historyGroups s))
             \<and> (\<forall>cid \<in> set (allIds (historyGroups s)).
                   length (filter (holdsId cid) (historyGroups s)) = 1)"
  proof (intro allI impI)
    fix rnd s assume "reachable rnd s"
    then have "historyBacked s" by (rule reachable_historyBacked)
    then have ds: "distinct (allIds (historyGroups s))" by (simp add: historyBacked_def)
    have "\<forall>cid \<in> set (allIds (historyGroups s)). length (filter (holdsId cid) (historyGroups s)) = 1"
      using one_group_holds [OF ds] by blast
    with ds show "distinct (allIds (historyGroups s))
             \<and> (\<forall>cid \<in> set (allIds (historyGroups s)).
                   length (filter (holdsId cid) (historyGroups s)) = 1)" by simp
  qed
  have c1: "\<forall>conversationId preview title previous.
             \<exists>updater. keepsId conversationId updater
               \<and> refreshHistoryPreview conversationId preview title previous
                   = promoteConversation previous conversationId updater"
    by (intro allI) (rule refresh_call)
  have c2: "\<forall>rnd s.
             \<exists>updater. keepsId (createId (rnd (draws s))) updater
               \<and> historyGroups (handleNewChat rnd s)
                   = promoteConversation (historyGroups s) (createId (rnd (draws s))) updater"
    by (intro allI) (rule newChat_call)
  have c3: "\<forall>rnd c s.
             \<exists>updater. keepsId (hc_id c) updater
               \<and> historyGroups (handleSelectConversation rnd c s)
                   = promoteConversation (historyGroups s) (hc_id c) updater"
    by (intro allI) (rule select_call)
  have c4: "\<forall>rnd s. hasPendingInput s \<and> \<not> isGenerating s \<longrightarrow>
             historyGroups (handleSubmit rnd s)
               = refreshHistoryPreview (activeConversationId s)
                   (userContent (trim (input s)) (map copyAttachment (composerAttachments s)))
                   (Some (activeConversationTitle s)) (historyGroups s)"
    by (intro allI impI) (rule submit_call)
  have c5: "\<forall>rnd e s. historyGroups (step rnd e s) = historyGroups s
             \<or> e = Submit \<or> e = NewChat \<or> (\<exists>c. e = SelectConversation c)"
    by (intro allI) (rule other_events_keep_history)
  from d e o r c1 c2 c3 c4 c5 show ?thesis by (intro conjI)
qed

theorem promote_sequence_keeps_ids_unique_witness:
  "distinct (allIds historySeed)
   \<and> list_all (\<lambda>call. keepsId (fst call) (snd call))
        [(lit ''week-1'', constantSummary sampleSummary), (lit ''abc12345'', constantSummary sampleFresh)]
   \<and> distinct (allIds (promoteAll historySeed
        [(lit ''week-1'', constantSummary sampleSummary), (lit ''abc12345'', constantSummary sampleFresh)]))
   \<and> set (allIds (promoteAll historySeed
        [(lit ''week-1'', constantSummary sampleSummary), (lit ''abc12345'', constantSummary sampleFresh)]))
       = set (allIds historySeed) \<union> {lit ''week-1'', lit ''abc12345''}
   \<and> length (filter (holdsId (lit ''week-1'')) (promoteAll historySeed
        [(lit ''week-1'', constantSummary sampleSummary), (lit ''abc12345'', constantSummary sampleFresh)])) = 1
   \<and> reachable sampleDraws sampleTyped
   \<and> distinct (allIds (historyGroups sampleTyped))
   \<and> hasPendingInput sampleTyped \<and> \<not> isGenerating sampleTyped
   \<and> historyGroups (handleSubmit sampleDraws sampleTyped)
       = refreshHistoryPreview (lit ''today-1'') (lit ''hello'') (Some (lit ''Product launch prep''))
           historySeed"
proof -
  have k: "\<forall>call \<in> set [(lit ''week-1'', constantSummary sampleSummary), (lit ''abc12345'', constantSummary sampleFresh)].
             keepsId (fst call) (snd call)"
    by (simp add: keepsId_constantSummary sampleSummary_def sampleFresh_def)
  note th = promote_sequence_keeps_ids_unique [OF distinct_historySeed k]
  note d = th [THEN conjunct1]
  note e = th [THEN conjunct2, THEN conjunct1]
  note o = th [THEN conjunct2, THEN conjunct2, THEN conjunct1]
  note r = th [THEN conjunct2, THEN conjunct2, THEN conjunct2, THEN conjunct1, THEN spec, THEN spec,
      THEN mp, OF sampleTyped_facts(1), THEN conjunct1]
  note sub = th [THEN conjunct2, THEN conjunct2, THEN conjunct2, THEN conjunct2, THEN conjunct2,
      THEN conjunct2, THEN conjunct2, THEN conjunct1, THEN spec, THEN spec, THEN mp,
      OF conjI [OF sampleTyped_facts(2,3)]]
  have e': "set (allIds (promoteAll historySeed
        [(lit ''week-1'', constantSummary sampleSummary), (lit ''abc12345'', constantSummary sampleFresh)]))
       = set (allIds historySeed) \<union> {lit ''week-1'', lit ''abc12345''}"
    unfolding e by simp
  have mem: "lit ''week-1'' \<in> set (allIds (promoteAll historySeed
        [(lit ''week-1'', constantSummary sampleSummary), (lit ''abc12345'', constantSummary sampleFresh)]))"
    unfolding e' by simp
  have one: "length (filter (holdsId (lit ''week-1'')) (promoteAll historySeed
        [(lit ''week-1'', constantSummary sampleSummary), (lit ''abc12345'', constantSummary sampleFresh)])) = 1"
    using o mem by (rule bspec)
  have k': "list_all (\<lambda>call. keepsId (fst call) (snd call))
        [(lit ''week-1'', constantSummary sampleSummary), (lit ''abc12345'', constantSummary sampleFresh)]"
    using k unfolding list_all_iff .
  have f: "activeConversationId sampleTyped = lit ''today-1''"
    "activeConversationTitle sampleTyped = lit ''Product launch prep''"
    "historyGroups sampleTyped = historySeed" "composerAttachments sampleTyped = []"
    "trim (input sampleTyped) = lit ''hello''"
    by (simp_all add: sampleTyped_def initial_active initial_fields trim_def lit_def isWhiteSpace_def)
  have u: "userContent (lit ''hello'') [] = lit ''hello''"
    by (simp add: userContent_def lit_def)
  have s: "historyGroups (handleSubmit sampleDraws sampleTyped)
       = refreshHistoryPreview (lit ''today-1'') (lit ''hello'') (Some (lit ''Product launch prep''))
           historySeed"
    using sub [of sampleDraws] by (simp add: f u)
  from distinct_historySeed k' d e' one sampleTyped_facts(1) r sampleTyped_facts(2,3) s show ?thesis
    by (intro conjI)
qed

text \<open>
  C4. For an index held by a store at reference \<open>r\<close>: the result of
  \<open>promoteConversation\<close> is not empty, and the first summary of its first group is the
  factory's result, applied to the first summary that carries the identifier, or to
  \<open>null\<close> when no summary carries it; so it has the title and preview the factory chose.
  On the empty index the result is one group \<open>Today\<close> holding the factory's result.
  When no identifier occurs twice in the index (the invariant of the data model), the
  result is the index with the summary of the identifier filtered out of every group and
  the factory's result put in front of the first group, whose other summaries with the
  result's identifier are dropped; no summary after the first carries the identifier.
  On the store, the function returns a reference to this index, whatever the layout of
  the store, and leaves every cell that existed before as it was: the argument still
  denotes the index it denoted.
\<close>

theorem promoteConversation_front_pure:
  assumes "readGroups h r = Some groups"
  shows "promoteConversation groups cid f \<noteq> []
       \<and> hd (hg_conversations (hd (promoteConversation groups cid f)))
           = f (find (\<lambda>c. hc_id c = cid) (allSummaries groups))
       \<and> (find (\<lambda>c. hc_id c = cid) (allSummaries groups) = None \<longleftrightarrow> cid \<notin> set (allIds groups))
       \<and> (groups = [] \<longrightarrow>
            promoteConversation groups cid f = [\<lparr>hg_label = lit ''Today'', hg_conversations = [f None]\<rparr>])
       \<and> (distinct (allIds groups) \<longrightarrow>
            promoteConversation groups cid f =
              (if groups = []
               then [\<lparr>hg_label = lit ''Today'', hg_conversations = [f None]\<rparr>]
               else (hd (withoutId cid groups))
                      \<lparr>hg_conversations :=
                         f (find (\<lambda>c. hc_id c = cid) (allSummaries groups))
                         # filter (\<lambda>c. hc_id c \<noteq> hc_id (f (find (\<lambda>c. hc_id c = cid) (allSummaries groups))))
                             (hg_conversations (hd (withoutId cid groups)))\<rparr>
                    # tl (withoutId cid groups))
            \<and> (\<forall>c \<in> set (tl (allSummaries (promoteConversation groups cid f))). hc_id c \<noteq> cid))
       \<and> (\<exists>nxt h'. promoteConversation_h h r cid f = Some (nxt, h')
              \<and> take (length h) h' = h
              \<and> readGroups h' r = Some groups
              \<and> readGroups h' nxt = Some (promoteConversation groups cid f))"
proof (intro conjI impI)
  show "promoteConversation groups cid f \<noteq> []"
    by (rule promoteConversation_front [THEN conjunct1])
  show "hd (hg_conversations (hd (promoteConversation groups cid f)))
           = f (find (\<lambda>c. hc_id c = cid) (allSummaries groups))"
    by (rule promoteConversation_front [THEN conjunct2])
  show "find (\<lambda>c. hc_id c = cid) (allSummaries groups) = None \<longleftrightarrow> cid \<notin> set (allIds groups)"
    by (rule find_None_allIds)
next
  assume "groups = []"
  then show "promoteConversation groups cid f = [\<lparr>hg_label = lit ''Today'', hg_conversations = [f None]\<rparr>]"
    by (simp add: promoteConversation_empty)
next
  assume d: "distinct (allIds groups)"
  show "promoteConversation groups cid f =
              (if groups = []
               then [\<lparr>hg_label = lit ''Today'', hg_conversations = [f None]\<rparr>]
               else (hd (withoutId cid groups))
                      \<lparr>hg_conversations :=
                         f (find (\<lambda>c. hc_id c = cid) (allSummaries groups))
                         # filter (\<lambda>c. hc_id c \<noteq> hc_id (f (find (\<lambda>c. hc_id c = cid) (allSummaries groups))))
                             (hg_conversations (hd (withoutId cid groups)))\<rparr>
                    # tl (withoutId cid groups))"
    using d by (rule promoteConversation_explicit)
  show "\<forall>c \<in> set (tl (allSummaries (promoteConversation groups cid f))). hc_id c \<noteq> cid"
    using d by (rule promoteConversation_tl)
next
  from promoteConversation_h_correct [OF assms, of cid f] obtain nxt h' where
    run: "promoteConversation_h h r cid f = Some (nxt, h')"
    and frame: "take (length h) h' = h"
    and res: "readGroups h' nxt = Some (promoteConversation groups cid f)" by blast
  from assms frame have same: "readGroups h' r = Some groups" by (rule readGroups_prefix)
  show "\<exists>nxt h'. promoteConversation_h h r cid f = Some (nxt, h')
              \<and> take (length h) h' = h
              \<and> readGroups h' r = Some groups
              \<and> readGroups h' nxt = Some (promoteConversation groups cid f)"
    using run frame same res by blast
qed

theorem promoteConversation_front_pure_witness:
  "readGroups seedHeap 9 = Some historySeed \<and> distinct (allIds historySeed)
   \<and> hd (hg_conversations (hd (promoteConversation historySeed (lit ''week-1'') (constantSummary sampleSummary))))
       = sampleSummary
   \<and> list_all (\<lambda>c. hc_id c \<noteq> lit ''week-1'')
        (tl (allSummaries (promoteConversation historySeed (lit ''week-1'') (constantSummary sampleSummary))))
   \<and> promoteConversation [] (lit ''week-1'') (constantSummary sampleSummary)
       = [\<lparr>hg_label = lit ''Today'', hg_conversations = [sampleSummary]\<rparr>]
   \<and> (\<exists>nxt h'. promoteConversation_h seedHeap 9 (lit ''week-1'') (constantSummary sampleSummary) = Some (nxt, h')
          \<and> take (length seedHeap) h' = seedHeap
          \<and> readGroups h' 9 = Some historySeed
          \<and> readGroups h' nxt
              = Some (promoteConversation historySeed (lit ''week-1'') (constantSummary sampleSummary)))"
proof -
  note th = promoteConversation_front_pure [OF readGroups_seedHeap,
      of "lit ''week-1''" "constantSummary sampleSummary"]
  note front = th [THEN conjunct2, THEN conjunct1]
  note dist = th [THEN conjunct2, THEN conjunct2, THEN conjunct2, THEN conjunct2, THEN conjunct1,
      THEN mp, OF distinct_historySeed]
  note heap = th [THEN conjunct2, THEN conjunct2, THEN conjunct2, THEN conjunct2, THEN conjunct2]
  have a: "hd (hg_conversations (hd (promoteConversation historySeed (lit ''week-1'') (constantSummary sampleSummary))))
       = sampleSummary"
    unfolding front by (simp only: constantSummary_def)
  have b: "list_all (\<lambda>c. hc_id c \<noteq> lit ''week-1'')
        (tl (allSummaries (promoteConversation historySeed (lit ''week-1'') (constantSummary sampleSummary))))"
    unfolding list_all_iff by (rule dist [THEN conjunct2])
  have c: "promoteConversation [] (lit ''week-1'') (constantSummary sampleSummary)
       = [\<lparr>hg_label = lit ''Today'', hg_conversations = [sampleSummary]\<rparr>]"
    by (simp add: promoteConversation_empty constantSummary_def)
  from readGroups_seedHeap distinct_historySeed a b c heap show ?thesis
    by (intro conjI)
qed

text \<open>
  C5, as amended. The first render creates a store entry for every conversation of the
  seed history: the first conversation of the first group gets the introductory messages
  (the templates, in order), and every other one gets a single placeholder message whose
  content names its title and its preview. In every reachable state every conversation
  of the history index has an entry, so that selecting a conversation of the index leaves
  the store unchanged. \<open>handleSelectConversation\<close> adds an entry only for an identifier
  that has none: then exactly one, a single placeholder message whose content names the
  title and the preview; for an identifier that has an entry the store is unchanged.
\<close>

theorem store_entries_eager_then_on_demand:
  "primaryIdOf historySeed = Some (lit ''today-1'')
   \<and> conversations (initialState rnd) (lit ''today-1'') = Some (createInitialMessages rnd 0)
   \<and> map msg_content (createInitialMessages rnd 0) = map tpl_content messageTemplates
   \<and> (\<forall>c \<in> set (allSummaries historySeed). hc_id c \<noteq> lit ''today-1'' \<longrightarrow>
        (\<exists>d. conversations (initialState rnd) (hc_id c) =
          Some [\<lparr>msg_id = createId (rnd d), msg_role = Assistant, msg_name = lit ''Nova'',
                  msg_avatarFallback = lit ''NO'', msg_avatarUrl = None,
                  msg_content = lit ''This is a placeholder view for **'' @ hc_title c @ lit ''**.''
                    @ [10, 10] @ hc_preview c @ [10, 10]
                    @ lit ''Load real messages here by persisting conversations and hydrating them when the user opens the thread.'',
                  msg_markdown = Some True, msg_attachments = None, msg_reaction = None\<rparr>]))
   \<and> dom (conversations (initialState rnd)) = set (allIds historySeed)
   \<and> (reachable rnd s \<longrightarrow> set (allIds (historyGroups s)) \<subseteq> dom (conversations s))
   \<and> (reachable rnd s \<and> hc_id c \<in> set (allIds (historyGroups s)) \<longrightarrow>
        conversations (handleSelectConversation rnd c s) = conversations s)
   \<and> (conversations s (hc_id c) = None \<longrightarrow>
        conversations (handleSelectConversation rnd c s) (hc_id c) =
          Some [\<lparr>msg_id = createId (rnd (draws s)), msg_role = Assistant, msg_name = lit ''Nova'',
                  msg_avatarFallback = lit ''NO'', msg_avatarUrl = None,
                  msg_content = lit ''This is a placeholder view for **'' @ hc_title c @ lit ''**.''
                    @ [10, 10] @ hc_preview c @ [10, 10]
                    @ lit ''Load real messages here by persisting conversations and hydrating them when the user opens the thread.'',
                  msg_markdown = Some True, msg_attachments = None, msg_reaction = None\<rparr>]
        \<and> dom (conversations (handleSelectConversation rnd c s)) = insert (hc_id c) (dom (conversations s))
        \<and> (\<forall>k. k \<noteq> hc_id c \<longrightarrow>
              conversations (handleSelectConversation rnd c s) k = conversations s k))
   \<and> (conversations s (hc_id c) \<noteq> None \<longrightarrow>
        conversations (handleSelectConversation rnd c s) = conversations s)"
proof (intro conjI impI allI ballI)
  show "primaryIdOf historySeed = Some (lit ''today-1'')" by (rule primaryIdOf_historySeed)
  show "conversations (initialState rnd) (lit ''today-1'') = Some (createInitialMessages rnd 0)"
    by (rule initial_entries(1))
  show "map msg_content (createInitialMessages rnd 0) = map tpl_content messageTemplates"
    by (rule initial_contents(1))
  show "dom (conversations (initialState rnd)) = set (allIds historySeed)" by (rule dom_initial)
next
  fix e assume e: "e \<in> set (allSummaries historySeed)" "hc_id e \<noteq> lit ''today-1''"
  from initial_placeholders [OF e] obtain d where "conversations (initialState rnd) (hc_id e)
            = Some (createPlaceholderConversation rnd d (hc_title e) (hc_preview e))" ..
  then have x: "conversations (initialState rnd) (hc_id e) =
          Some [\<lparr>msg_id = createId (rnd d), msg_role = Assistant, msg_name = lit ''Nova'',
                  msg_avatarFallback = lit ''NO'', msg_avatarUrl = None,
                  msg_content = lit ''This is a placeholder view for **'' @ hc_title e @ lit ''**.''
                    @ [10, 10] @ hc_preview e @ [10, 10]
                    @ lit ''Load real messages here by persisting conversations and hydrating them when the user opens the thread.'',
                  msg_markdown = Some True, msg_attachments = None, msg_reaction = None\<rparr>]"
    by (simp only: placeholder_content)
  show "\<exists>d. conversations (initialState rnd) (hc_id e) =
          Some [\<lparr>msg_id = createId (rnd d), msg_role = Assistant, msg_name = lit ''Nova'',
                  msg_avatarFallback = lit ''NO'', msg_avatarUrl = None,
                  msg_content = lit ''This is a placeholder view for **'' @ hc_title e @ lit ''**.''
                    @ [10, 10] @ hc_preview e @ [10, 10]
                    @ lit ''Load real messages here by persisting conversations and hydrating them when the user opens the thread.'',
                  msg_markdown = Some True, msg_attachments = None, msg_reaction = None\<rparr>]"
    by (rule exI) (rule x)
next
  assume "reachable rnd s"
  then have "historyBacked s" by (rule reachable_historyBacked)
  then show "set (allIds (historyGroups s)) \<subseteq> dom (conversations s)" by (simp add: historyBacked_def)
next
  assume a: "reachable rnd s \<and> hc_id c \<in> set (allIds (historyGroups s))"
  show "conversations (handleSelectConversation rnd c s) = conversations s"
    by (rule select_listed [OF a [THEN conjunct1] a [THEN conjunct2]])
next
  assume a: "conversations s (hc_id c) = None"
  show "conversations (handleSelectConversation rnd c s) (hc_id c) =
          Some [\<lparr>msg_id = createId (rnd (draws s)), msg_role = Assistant, msg_name = lit ''Nova'',
                  msg_avatarFallback = lit ''NO'', msg_avatarUrl = None,
                  msg_content = lit ''This is a placeholder view for **'' @ hc_title c @ lit ''**.''
                    @ [10, 10] @ hc_preview c @ [10, 10]
                    @ lit ''Load real messages here by persisting conversations and hydrating them when the user opens the thread.'',
                  msg_markdown = Some True, msg_attachments = None, msg_reaction = None\<rparr>]"
    by (simp add: select_absent [OF a] placeholder_content)
  show "dom (conversations (handleSelectConversation rnd c s)) = insert (hc_id c) (dom (conversations s))"
    by (rule dom_handleSelectConversation)
  fix k assume "k \<noteq> hc_id c"
  then show "conversations (handleSelectConversation rnd c s) k = conversations s k"
    by (simp add: select_absent [OF a])
next
  assume "conversations s (hc_id c) \<noteq> None"
  then show "conversations (handleSelectConversation rnd c s) = conversations s"
    by (rule select_present)
qed

theorem store_entries_eager_then_on_demand_witness:
  "sampleSeedEntry \<in> set (allSummaries historySeed) \<and> hc_id sampleSeedEntry \<noteq> lit ''today-1''
   \<and> map msg_content (the (conversations (initialState sampleDraws) (hc_id sampleSeedEntry)))
       = [lit ''This is a placeholder view for **Growth experiment doc**.'' @ [10, 10]
          @ lit ''Mapped out hypotheses, guardrail metrics, and rollout cadence.'' @ [10, 10]
          @ lit ''Load real messages here by persisting conversations and hydrating them when the user opens the thread.'']
   \<and> reachable sampleDraws (initialState sampleDraws)
   \<and> hc_id sampleSeedEntry \<in> set (allIds (historyGroups (initialState sampleDraws)))
   \<and> conversations (handleSelectConversation sampleDraws sampleSeedEntry (initialState sampleDraws))
       = conversations (initialState sampleDraws)
   \<and> reachable sampleDraws sampleTyped
   \<and> set (allIds (historyGroups sampleTyped)) \<subseteq> dom (conversations sampleTyped)
   \<and> conversations (initialState sampleDraws) (hc_id sampleFresh) = None
   \<and> map msg_content (the (conversations
        (handleSelectConversation sampleDraws sampleFresh (initialState sampleDraws)) (hc_id sampleFresh)))
       = [lit ''This is a placeholder view for **Untitled chat 6**.'' @ [10, 10]
          @ lit ''Say hello to Nova to get started.'' @ [10, 10]
          @ lit ''Load real messages here by persisting conversations and hydrating them when the user opens the thread.'']
   \<and> conversations (initialState sampleDraws) (hc_id sampleSeedEntry) \<noteq> None"
proof -
  have m: "sampleSeedEntry \<in> set (allSummaries historySeed)"
    by (simp add: allSummaries_def historySeed_def sampleSeedEntry_def)
  have n: "hc_id sampleSeedEntry \<noteq> lit ''today-1''"
    by (simp add: sampleSeedEntry_def lit_def)
  have r0: "reachable sampleDraws (initialState sampleDraws)"
    unfolding reachable_def by (rule exI [of _ "[]"]) simp
  have l: "hc_id sampleSeedEntry \<in> set (allIds (historyGroups (initialState sampleDraws)))"
    using m by (simp add: initial_active allIds_def)
  have a: "conversations (initialState sampleDraws) (hc_id sampleFresh) = None"
    by (simp add: sampleFresh_def initial_lookup)
  have b: "conversations (initialState sampleDraws) (hc_id sampleSeedEntry) \<noteq> None"
    by (simp add: sampleSeedEntry_def initial_lookup)
  note t0 = store_entries_eager_then_on_demand [of sampleDraws "initialState sampleDraws" sampleSeedEntry]
  note t1 = store_entries_eager_then_on_demand [of sampleDraws sampleTyped sampleFresh]
  note t2 = store_entries_eager_then_on_demand [of sampleDraws "initialState sampleDraws" sampleFresh]
  note seeds = t0 [THEN conjunct2, THEN conjunct2, THEN conjunct2, THEN conjunct1]
  note listed = t0 [THEN conjunct2, THEN conjunct2, THEN conjunct2, THEN conjunct2, THEN conjunct2,
      THEN conjunct2, THEN conjunct1]
  note backed = t1 [THEN conjunct2, THEN conjunct2, THEN conjunct2, THEN conjunct2, THEN conjunct2,
      THEN conjunct1]
  note absent = t2 [THEN conjunct2, THEN conjunct2, THEN conjunct2, THEN conjunct2, THEN conjunct2,
      THEN conjunct2, THEN conjunct2, THEN conjunct1]
  from seeds [THEN bspec, OF m, THEN mp, OF n] obtain d where
    "conversations (initialState sampleDraws) (hc_id sampleSeedEntry) =
          Some [\<lparr>msg_id = createId (sampleDraws d), msg_role = Assistant, msg_name = lit ''Nova'',
                  msg_avatarFallback = lit ''NO'', msg_avatarUrl = None,
                  msg_content = lit ''This is a placeholder view for **'' @ hc_title sampleSeedEntry @ lit ''**.''
                    @ [10, 10] @ hc_preview sampleSeedEntry @ [10, 10]
                    @ lit ''Load real messages here by persisting conversations and hydrating them when the user opens the thread.'',
                  msg_markdown = Some True, msg_attachments = None, msg_reaction = None\<rparr>]"
    by blast
  then have s: "map msg_content (the (conversations (initialState sampleDraws) (hc_id sampleSeedEntry)))
       = [lit ''This is a placeholder view for **Growth experiment doc**.'' @ [10, 10]
          @ lit ''Mapped out hypotheses, guardrail metrics, and rollout cadence.'' @ [10, 10]
          @ lit ''Load real messages here by persisting conversations and hydrating them when the user opens the thread.'']"
    by (simp add: sampleSeedEntry_def lit_def)
  have u: "conversations (handleSelectConversation sampleDraws sampleSeedEntry (initialState sampleDraws))
       = conversations (initialState sampleDraws)"
    using listed r0 l by blast
  have r: "set (allIds (historyGroups sampleTyped)) \<subseteq> dom (conversations sampleTyped)"
    using backed sampleTyped_facts(1) by blast
  have c: "map msg_content (the (conversations
        (handleSelectConversation sampleDraws sampleFresh (initialState sampleDraws)) (hc_id sampleFresh)))
       = [lit ''This is a placeholder view for **Untitled chat 6**.'' @ [10, 10]
          @ lit ''Say hello to Nova to get started.'' @ [10, 10]
          @ lit ''Load real messages here by persisting conversations and hydrating them when the user opens the thread.'']"
  proof -
    from absent a have "conversations (handleSelectConversation sampleDraws sampleFresh (initialState sampleDraws)) (hc_id sampleFresh) =
          Some [\<lparr>msg_id = createId (sampleDraws (draws (initialState sampleDraws))), msg_role = Assistant, msg_name = lit ''Nova'',
                  msg_avatarFallback = lit ''NO'', msg_avatarUrl = None,
                  msg_content = lit ''This is a placeholder view for **'' @ hc_title sampleFresh @ lit ''**.''
                    @ [10, 10] @ hc_preview sampleFresh @ [10, 10]
                    @ lit ''Load real messages here by persisting conversations and hydrating them when the user opens the thread.'',
                  msg_markdown = Some True, msg_attachments = None, msg_reaction = None\<rparr>]"
      by blast
    then show ?thesis by (simp add: sampleFresh_def lit_def)
  qed
  from m n s r0 l u sampleTyped_facts(1) r a c b show ?thesis by (intro conjI)
qed

text \<open>
  C5 as stated fails: after the first render the seed conversation \<open>week-2\<close>, which is
  listed in the history and has never been active, already has its entry, and selecting
  it adds none.
\<close>

theorem store_eager_counterexample:
  "sampleSeedEntry \<in> set (allSummaries (historyGroups (initialState sampleDraws)))
   \<and> activeConversationId (initialState sampleDraws) \<noteq> hc_id sampleSeedEntry
   \<and> conversations (initialState sampleDraws) (hc_id sampleSeedEntry) \<noteq> None
   \<and> dom (conversations (handleSelectConversation sampleDraws sampleSeedEntry (initialState sampleDraws)))
       = dom (conversations (initialState sampleDraws))"
proof -
  have a: "sampleSeedEntry \<in> set (allSummaries (historyGroups (initialState sampleDraws)))"
    by (simp add: initial_active allSummaries_def historySeed_def sampleSeedEntry_def)
  have b: "activeConversationId (initialState sampleDraws) \<noteq> hc_id sampleSeedEntry"
    by (simp add: initial_active sampleSeedEntry_def lit_def)
  have c: "conversations (initialState sampleDraws) (hc_id sampleSeedEntry) \<noteq> None"
    by (simp add: sampleSeedEntry_def initial_lookup)
  from c have "conversations (handleSelectConversation sampleDraws sampleSeedEntry (initialState sampleDraws))
       = conversations (initialState sampleDraws)"
    by (rule select_present)
  with a b c show ?thesis by simp
qed

text \<open>
  C6, as amended. \<open>createId\<close> returns code units 2 to 9 of the rendering of its random
  draw; for renderings of at least ten code units, two calls return the same identifier
  exactly when the renderings agree on these eight code units.
\<close>

theorem createId_distinct_iff:
  assumes "length r \<ge> 10" "length r' \<ge> 10"
  shows "createId r = createId r' \<longleftrightarrow> (\<forall>i::nat. 2 \<le> i \<and> i < 10 \<longrightarrow> r ! i = r' ! i)"
proof
  assume eq: "createId r = createId r'"
  show "\<forall>i::nat. 2 \<le> i \<and> i < 10 \<longrightarrow> r ! i = r' ! i"
  proof (intro allI impI)
    fix i :: nat assume i: "2 \<le> i \<and> i < 10"
    then have j: "i - 2 < 8" "i - 2 + 2 = i" by arith+
    have "createId r ! (i - 2) = r ! (i - 2 + 2)" "createId r' ! (i - 2) = r' ! (i - 2 + 2)"
      by (rule createId_nth [OF assms(1) j(1)], rule createId_nth [OF assms(2) j(1)])
    with eq j(2) show "r ! i = r' ! i" by simp
  qed
next
  assume h: "\<forall>i::nat. 2 \<le> i \<and> i < 10 \<longrightarrow> r ! i = r' ! i"
  have len: "length (createId r) = 8" "length (createId r') = 8"
    using assms by (simp_all add: createId_def)
  show "createId r = createId r'"
  proof (rule nth_equalityI)
    show "length (createId r) = length (createId r')" using len by simp
  next
    fix i assume "i < length (createId r)"
    then have i: "i < 8" using len by simp
    then have "createId r ! i = r ! (i + 2)" "createId r' ! i = r' ! (i + 2)"
      using assms by (simp_all add: createId_nth)
    moreover have "r ! (i + 2) = r' ! (i + 2)" using h i by simp
    ultimately show "createId r ! i = createId r' ! i" by simp
  qed
qed

theorem createId_distinct_iff_witness: "length (lit ''0.4fzyo82mvyr'') \<ge> 10 \<and> length (lit ''0.9zzzzzzzzzz'') \<ge> 10 \<and>
  (createId (lit ''0.4fzyo82mvyr'') = createId (lit ''0.9zzzzzzzzzz'') \<longleftrightarrow> False)"
proof -
  have a: "length (lit ''0.4fzyo82mvyr'') \<ge> 10" by (simp add: lit_def)
  have b: "length (lit ''0.9zzzzzzzzzz'') \<ge> 10" by (simp add: lit_def)
  have c: "\<not> (\<forall>i::nat. 2 \<le> i \<and> i < 10 \<longrightarrow> lit ''0.4fzyo82mvyr'' ! i = lit ''0.9zzzzzzzzzz'' ! i)"
    by (rule notI, drule spec [of _ 2]) (simp add: lit_def)
  show ?thesis using a b c createId_distinct_iff [OF a b] by simp
qed

text \<open>
  C6 as stated fails: nothing keeps track of the identifiers given out, and two different
  draws whose renderings differ only after the tenth code unit give the same identifier.
\<close>

theorem createId_collision_counterexample: "createId (lit ''0.4fzyo82mvyr'') = createId (lit ''0.4fzyo82mvys'') \<and> lit ''0.4fzyo82mvyr'' \<noteq> lit ''0.4fzyo82mvys''"
  by (simp add: createId_def lit_def)

text \<open>
  C7. The content of the user message is the trimmed text, else the attachment-count
  summary, else \<open>Sent a message\<close>, in this order; an accepted submit appends one user
  message with this content, which is never empty, and with empty text and one staged
  attachment the content is \<open>Shared 1 attachment\<close>.
\<close>

theorem submit_user_content:
  assumes "hasPendingInput s" and "\<not> isGenerating s"
  shows "(\<forall>prompt attachments.
            userContent prompt attachments =
              (if prompt \<noteq> [] then prompt
               else if attachments \<noteq> []
                 then lit ''Shared '' @ showNat (length attachments) @ lit '' attachment''
                      @ (if length attachments > 1 then lit ''s'' else [])
               else lit ''Sent a message''))
       \<and> (let m = last (conversationOf (handleSubmit rnd s) (activeConversationId s)) in
            conversationOf (handleSubmit rnd s) (activeConversationId s)
              = conversationOf s (activeConversationId s) @ [m]
          \<and> msg_role m = User
          \<and> msg_content m = userContent (trim (input s)) (composerAttachments s)
          \<and> msg_content m \<noteq> []
          \<and> (trim (input s) = [] \<and> length (composerAttachments s) = 1
               \<longrightarrow> msg_content m = lit ''Shared 1 attachment''))"
proof -
  have uc: "\<And>p a. userContent p a =
              (if p \<noteq> [] then p
               else if a \<noteq> []
                 then lit ''Shared '' @ showNat (length a) @ lit '' attachment''
                      @ (if length a > 1 then lit ''s'' else [])
               else lit ''Sent a message'')"
    by (simp add: userContent_def attachmentsSummary_def lit_def)
  have ne: "\<And>p a. userContent p a \<noteq> []"
    by (simp add: uc lit_def)
  have len: "\<And>p a. userContent p (map copyAttachment a) = userContent p a"
    by (simp add: uc)
  have one: "\<And>a. length a = 1 \<Longrightarrow> userContent [] a = lit ''Shared 1 attachment''"
    by (auto simp add: uc showNat.simps lit_def)
  define M where "M = \<lparr>msg_id = createId (rnd (draws s)), msg_role = User, msg_name = lit ''You'',
               msg_avatarFallback = lit ''YO'', msg_avatarUrl = None,
               msg_content = userContent (trim (input s)) (map copyAttachment (composerAttachments s)), msg_markdown = None,
               msg_attachments = (if composerAttachments s \<noteq> [] then Some (map copyAttachment (composerAttachments s)) else None),
               msg_reaction = None\<rparr>"
  have conv: "conversationOf (handleSubmit rnd s) (activeConversationId s)
                = conversationOf s (activeConversationId s) @ [M]"
    using assms by (simp add: conversationOf_handleSubmit M_def)
  then have lastM: "last (conversationOf (handleSubmit rnd s) (activeConversationId s)) = M"
    by simp
  have role: "msg_role M = User" by (simp add: M_def)
  have content: "msg_content M = userContent (trim (input s)) (composerAttachments s)"
    by (simp add: M_def len)
  have nonempty: "msg_content M \<noteq> []" unfolding content by (rule ne)
  have single: "trim (input s) = [] \<and> length (composerAttachments s) = 1
               \<longrightarrow> msg_content M = lit ''Shared 1 attachment''"
    unfolding content using one by auto
  show ?thesis
    unfolding Let_def lastM
    using uc conv role content nonempty single by blast
qed

theorem submit_user_content_witness:
  "hasPendingInput sampleStaged \<and> \<not> isGenerating sampleStaged
   \<and> trim (input sampleStaged) = [] \<and> length (composerAttachments sampleStaged) = 1
   \<and> msg_content (last (conversationOf (handleSubmit sampleDraws sampleStaged)
                            (activeConversationId sampleStaged)))
       = lit ''Shared 1 attachment''"
proof -
  have "trim (input sampleStaged) = [] \<and> length (composerAttachments sampleStaged) = 1
        \<longrightarrow> msg_content (last (conversationOf (handleSubmit sampleDraws sampleStaged)
                            (activeConversationId sampleStaged)))
            = lit ''Shared 1 attachment''"
    using submit_user_content [OF sampleStaged_facts(1,2), of sampleDraws]
    unfolding Let_def by blast
  then show ?thesis using sampleStaged_facts by blast
qed

text \<open>
  C8. For a message of the active conversation with the targeted identifier: from no
  reaction, one toggle sets the reaction and a second one restores the message; from any
  reaction other than the one applied, one toggle replaces it and a second one clears it.
  When no message of the active conversation has the identifier, every conversation reads
  as before.
\<close>

theorem toggleReaction_three_state:
  fixes s :: State and messageId :: jstring and reaction :: Reaction
  defines "t1 \<equiv> toggleReaction messageId reaction s"
  defines "t2 \<equiv> toggleReaction messageId reaction (toggleReaction messageId reaction s)"
  shows "(\<forall>i < length (messages s). msg_id (messages s ! i) = messageId \<longrightarrow>
            (msg_reaction (messages s ! i) = None \<longrightarrow>
               messages t1 ! i = (messages s ! i)\<lparr>msg_reaction := Some reaction\<rparr>
               \<and> messages t2 ! i = messages s ! i)
          \<and> (msg_reaction (messages s ! i) \<noteq> Some reaction \<longrightarrow>
               messages t1 ! i = (messages s ! i)\<lparr>msg_reaction := Some reaction\<rparr>
               \<and> messages t2 ! i = (messages s ! i)\<lparr>msg_reaction := None\<rparr>))
       \<and> (messageId \<notin> msg_id ` set (messages s) \<longrightarrow>
            (\<forall>c. conversationOf t1 c = conversationOf s c))"
proof (intro conjI allI impI)
  fix i
  assume i: "i < length (messages s)" and mid: "msg_id (messages s ! i) = messageId"
  have m1: "messages t1 = toggleMessages messageId reaction (messages s)"
    by (simp add: t1_def messages_toggleReaction)
  have m2: "messages t2 = toggleMessages messageId reaction (toggleMessages messageId reaction (messages s))"
    by (simp add: t2_def messages_toggleReaction)
  {
    assume none: "msg_reaction (messages s ! i) = None"
    show "messages t1 ! i = (messages s ! i)\<lparr>msg_reaction := Some reaction\<rparr>"
      using i mid none by (simp add: m1 nth_toggleMessages)
    show "messages t2 ! i = messages s ! i"
      using i mid none by (simp add: m2 nth_toggleMessages)
  }
  {
    assume other: "msg_reaction (messages s ! i) \<noteq> Some reaction"
    show "messages t1 ! i = (messages s ! i)\<lparr>msg_reaction := Some reaction\<rparr>"
      using i mid other by (simp add: m1 nth_toggleMessages)
    show "messages t2 ! i = (messages s ! i)\<lparr>msg_reaction := None\<rparr>"
      using i mid other by (simp add: m2 nth_toggleMessages)
  }
next
  fix c
  assume absent: "messageId \<notin> msg_id ` set (messages s)"
  show "conversationOf t1 c = conversationOf s c"
    using absent
    by (simp add: t1_def conversationOf_toggleReaction toggleMessages_absent messages_conversationOf)
qed

theorem toggleReaction_three_state_witness:
  "0 < length (messages (initialState sampleDraws))
   \<and> msg_id (messages (initialState sampleDraws) ! 0) = lit ''0''
   \<and> msg_reaction (messages (initialState sampleDraws) ! 0) = None
   \<and> msg_reaction (messages (toggleReaction (lit ''0'') Upvote (initialState sampleDraws)) ! 0) = Some Upvote
   \<and> messages (toggleReaction (lit ''0'') Upvote (toggleReaction (lit ''0'') Upvote (initialState sampleDraws))) ! 0
       = messages (initialState sampleDraws) ! 0
   \<and> lit ''none'' \<notin> msg_id ` set (messages (initialState sampleDraws))
   \<and> conversationOf (toggleReaction (lit ''none'') Downvote (initialState sampleDraws)) (lit ''today-1'')
       = conversationOf (initialState sampleDraws) (lit ''today-1'')"
proof -
  have ids: "map msg_id (messages (initialState sampleDraws)) = [lit ''0'', lit ''1'', lit ''2'']"
    by (simp add: messages_initial createInitialMessages_def messageTemplates_def
          createId_sampleDraws lit_def)
  have len: "0 < length (messages (initialState sampleDraws))"
    using ids by (metis length_map length_greater_0_conv list.distinct(1))
  have id0: "msg_id (messages (initialState sampleDraws) ! 0) = lit ''0''"
    using ids len by (metis nth_map nth_Cons_0)
  have r0: "msg_reaction (messages (initialState sampleDraws) ! 0) = None"
    by (simp add: messages_initial createInitialMessages_def messageTemplates_def)
  have absent: "lit ''none'' \<notin> msg_id ` set (messages (initialState sampleDraws))"
    using ids by (simp add: lit_def flip: set_map)
  show ?thesis
    using toggleReaction_three_state [of "initialState sampleDraws" "lit ''0''" Upvote]
      toggleReaction_three_state [of "initialState sampleDraws" "lit ''none''" Downvote]
      len id0 r0 absent
    by simp
qed

text \<open>
  C9. For a store in which the buffer reference denotes the staged attachments, an
  accepted submit copies them: the array that \<open>attachments\<close> refers to and the objects it
  holds are new cells, none of them a cell of the buffer, they denote the staged
  attachments, the cells that existed before are as they were, and the user message
  carries what \<open>attachments\<close> denotes (nothing when it is empty); the buffer is then a
  new empty array. Whatever events follow (reading further files, removing staged
  attachments, the clears of submit, select and new chat), the store functions succeed,
  the buffer reference denotes the buffer of the state, \<open>attachments\<close> denotes what it
  denoted, the buffer shares no cell with it, and no write to a cell outside the copy
  (so no write to a cell of the buffer) changes what it denotes. The three updates of
  the buffer (reading a file, removing a staged attachment, clearing) leave every
  conversation as it is.
\<close>

theorem drained_copies_apart_from_buffer:
  assumes "readAttachments h buffer = Some (composerAttachments s)"
    and "hasPendingInput s" and "\<not> isGenerating s"
  shows "\<exists>attachments h1.
      drainAttachments_h h buffer = Some (attachments, h1)
    \<and> step_h rnd Submit s (buffer, h) = Some (clearAttachments_h h1)
    \<and> take (length h) h1 = h
    \<and> readAttachments h1 attachments = Some (composerAttachments s)
    \<and> (\<forall>a \<in> set (cellsOf h1 attachments). length h \<le> a)
    \<and> set (cellsOf h1 attachments) \<inter> set (cellsOf h buffer) = {}
    \<and> msg_attachments (last (conversationOf (handleSubmit rnd s) (activeConversationId s)))
        = (if composerAttachments s \<noteq> [] then readAttachments h1 attachments else None)
    \<and> composerAttachments (handleSubmit rnd s) = []
    \<and> (\<forall>evs. \<exists>buffer' h2.
          run_h rnd evs (handleSubmit rnd s) (clearAttachments_h h1) = Some (buffer', h2)
        \<and> readAttachments h2 buffer' = Some (composerAttachments (run rnd evs (handleSubmit rnd s)))
        \<and> readAttachments h2 attachments = Some (composerAttachments s)
        \<and> set (cellsOf h2 buffer') \<inter> set (cellsOf h2 attachments) = {}
        \<and> (\<forall>a c. a \<notin> set (cellsOf h2 attachments) \<longrightarrow>
              readAttachments (h2[a := c]) attachments = Some (composerAttachments s)))
    \<and> (\<forall>t file result. conversations (step rnd (FileLoaded file result) t) = conversations t)
    \<and> (\<forall>t attachmentId. conversations (step rnd (RemoveAttachment attachmentId) t) = conversations t)
    \<and> (\<forall>t. conversations (t\<lparr>composerAttachments := []\<rparr>) = conversations t)"
proof -
  define vs where "vs = composerAttachments s"
  define d where "d = length h + length vs"
  define h1 where "h1 = h @ map (\<lambda>a. AttachmentObject (copyAttachment a)) vs
               @ [AttachmentArray [length h ..< length h + length vs]]"
  have rd0: "readAttachments h buffer = Some vs" using assms(1) by (simp add: vs_def)
  have dr: "drainAttachments_h h buffer = Some (d, h1)"
    unfolding d_def h1_def by (rule drainAttachments_h_explicit [OF rd0])
  have st: "step_h rnd Submit s (buffer, h) = Some (clearAttachments_h h1)"
    using assms(2,3) by (simp add: dr)
  have tk: "take (length h) h1 = h" by (simp add: h1_def)
  have rd1: "readAttachments h1 d = Some vs"
    unfolding h1_def d_def by (rule readAttachments_drained)
  have cells: "cellsOf h1 d = d # [length h ..< length h + length vs]"
    unfolding h1_def d_def by (rule cellsOf_drained)
  have fresh: "\<forall>a \<in> set (cellsOf h1 d). length h \<le> a"
    unfolding cells by (auto simp: d_def)
  have old: "\<forall>a \<in> set (cellsOf h buffer). a < length h"
    using rd0 by (rule cellsOf_below)
  have dis: "set (cellsOf h1 d) \<inter> set (cellsOf h buffer) = {}"
    using fresh old by fastforce
  have msg: "msg_attachments (last (conversationOf (handleSubmit rnd s) (activeConversationId s)))
        = (if composerAttachments s \<noteq> [] then readAttachments h1 d else None)"
    using handleSubmit_last_attachments [OF assms(2,3)] rd1 by (simp add: vs_def)
  have emp: "composerAttachments (handleSubmit rnd s) = []"
    using assms(2,3) by (simp add: handleSubmit_def Let_def)
  have later: "\<forall>evs. \<exists>buffer' h2.
          run_h rnd evs (handleSubmit rnd s) (clearAttachments_h h1) = Some (buffer', h2)
        \<and> readAttachments h2 buffer' = Some (composerAttachments (run rnd evs (handleSubmit rnd s)))
        \<and> readAttachments h2 d = Some vs
        \<and> set (cellsOf h2 buffer') \<inter> set (cellsOf h2 d) = {}
        \<and> (\<forall>a c. a \<notin> set (cellsOf h2 d) \<longrightarrow> readAttachments (h2[a := c]) d = Some vs)"
  proof
    fix evs
    have below: "\<forall>a \<in> set (cellsOf h1 d). a < length h1"
      using rd1 by (rule cellsOf_below)
    from clear_apart [OF below emp] obtain b0 ys where
      c0: "clearAttachments_h h1 = (b0, h1 @ ys)"
      and a0: "bufferApart (set (cellsOf h1 d)) (handleSubmit rnd s) (b0, h1 @ ys)"
      by blast
    from run_apart [OF a0, of rnd evs] obtain b2 zs where
      r2: "run_h rnd evs (handleSubmit rnd s) (b0, h1 @ ys) = Some (b2, (h1 @ ys) @ zs)"
      and a2: "bufferApart (set (cellsOf h1 d)) (run rnd evs (handleSubmit rnd s)) (b2, (h1 @ ys) @ zs)"
      by blast
    define h2 where "h2 = h1 @ (ys @ zs)"
    have r2': "run_h rnd evs (handleSubmit rnd s) (clearAttachments_h h1) = Some (b2, h2)"
      using r2 c0 by (simp add: h2_def)
    have rb: "readAttachments h2 b2 = Some (composerAttachments (run rnd evs (handleSubmit rnd s)))"
      using a2 by (simp add: bufferApart_def h2_def)
    have rd2: "readAttachments h2 d = Some vs"
      unfolding h2_def using rd1 by (rule readAttachments_append)
    have c2: "cellsOf h2 d = cellsOf h1 d"
      unfolding h2_def using rd1 by (rule cellsOf_append)
    have ap: "set (cellsOf h2 b2) \<inter> set (cellsOf h2 d) = {}"
      using a2 by (simp add: bufferApart_def h2_def c2 [unfolded h2_def])
    have rob: "\<forall>a c. a \<notin> set (cellsOf h2 d) \<longrightarrow> readAttachments (h2[a := c]) d = Some vs"
      using readAttachments_update [of _ h2 d] rd2 by simp
    from r2' rb rd2 ap rob
    show "\<exists>buffer' h2.
          run_h rnd evs (handleSubmit rnd s) (clearAttachments_h h1) = Some (buffer', h2)
        \<and> readAttachments h2 buffer' = Some (composerAttachments (run rnd evs (handleSubmit rnd s)))
        \<and> readAttachments h2 d = Some vs
        \<and> set (cellsOf h2 buffer') \<inter> set (cellsOf h2 d) = {}
        \<and> (\<forall>a c. a \<notin> set (cellsOf h2 d) \<longrightarrow> readAttachments (h2[a := c]) d = Some vs)"
      by blast
  qed
  have f1: "\<forall>t file result. conversations (step rnd (FileLoaded file result) t) = conversations t"
    by (simp add: addAttachmentFromFile_def split: option.split)
  have f2: "\<forall>t attachmentId. conversations (step rnd (RemoveAttachment attachmentId) t) = conversations t"
    by (simp add: handleRemoveAttachment_def)
  have f3: "\<forall>t. conversations (t\<lparr>composerAttachments := []\<rparr>) = conversations t"
    by simp
  have "drainAttachments_h h buffer = Some (d, h1)
    \<and> step_h rnd Submit s (buffer, h) = Some (clearAttachments_h h1)
    \<and> take (length h) h1 = h
    \<and> readAttachments h1 d = Some (composerAttachments s)
    \<and> (\<forall>a \<in> set (cellsOf h1 d). length h \<le> a)
    \<and> set (cellsOf h1 d) \<inter> set (cellsOf h buffer) = {}
    \<and> msg_attachments (last (conversationOf (handleSubmit rnd s) (activeConversationId s)))
        = (if composerAttachments s \<noteq> [] then readAttachments h1 d else None)
    \<and> composerAttachments (handleSubmit rnd s) = []
    \<and> (\<forall>evs. \<exists>buffer' h2.
          run_h rnd evs (handleSubmit rnd s) (clearAttachments_h h1) = Some (buffer', h2)
        \<and> readAttachments h2 buffer' = Some (composerAttachments (run rnd evs (handleSubmit rnd s)))
        \<and> readAttachments h2 d = Some (composerAttachments s)
        \<and> set (cellsOf h2 buffer') \<inter> set (cellsOf h2 d) = {}
        \<and> (\<forall>a c. a \<notin> set (cellsOf h2 d) \<longrightarrow>
              readAttachments (h2[a := c]) d = Some (composerAttachments s)))
    \<and> (\<forall>t file result. conversations (step rnd (FileLoaded file result) t) = conversations t)
    \<and> (\<forall>t attachmentId. conversations (step rnd (RemoveAttachment attachmentId) t) = conversations t)
    \<and> (\<forall>t. conversations (t\<lparr>composerAttachments := []\<rparr>) = conversations t)"
    using dr st tk rd1 [unfolded vs_def] fresh dis msg emp later [unfolded vs_def] f1 f2 f3
    by (intro conjI)
  then show ?thesis by (intro exI)
qed

theorem drained_copies_apart_from_buffer_witness:
  "readAttachments sampleStore 2 = Some (composerAttachments sampleStaged)
   \<and> hasPendingInput sampleStaged \<and> \<not> isGenerating sampleStaged
   \<and> drainAttachments_h sampleStore 2
       = Some (4, sampleStore
                  @ [AttachmentObject \<lparr>att_id = lit ''7'', att_name = lit ''shot.png'',
                       att_type = lit ''image/png'', att_size = 2048,
                       att_preview = lit ''data:image/png;base64,AAAA''\<rparr>,
                     AttachmentArray [3]])
   \<and> map att_id (composerAttachments (run sampleDraws (take 1 sampleLater) (handleSubmit sampleDraws sampleStaged)))
       = [lit ''10'']
   \<and> composerAttachments (run sampleDraws (take 2 sampleLater) (handleSubmit sampleDraws sampleStaged)) = []
   \<and> map_option (\<lambda>bh. readAttachments (snd bh) 4)
        (run_h sampleDraws sampleLater (handleSubmit sampleDraws sampleStaged)
           (clearAttachments_h (sampleStore
                  @ [AttachmentObject \<lparr>att_id = lit ''7'', att_name = lit ''shot.png'',
                       att_type = lit ''image/png'', att_size = 2048,
                       att_preview = lit ''data:image/png;base64,AAAA''\<rparr>,
                     AttachmentArray [3]])))
       = Some (Some [\<lparr>att_id = lit ''7'', att_name = lit ''shot.png'', att_type = lit ''image/png'',
                att_size = 2048, att_preview = lit ''data:image/png;base64,AAAA''\<rparr>])"
proof -
  define h1 where "h1 = sampleStore
                  @ [AttachmentObject \<lparr>att_id = lit ''7'', att_name = lit ''shot.png'',
                       att_type = lit ''image/png'', att_size = 2048,
                       att_preview = lit ''data:image/png;base64,AAAA''\<rparr>,
                     AttachmentArray [3]]"
  have dr: "drainAttachments_h sampleStore 2 = Some (4, h1)"
    by (simp add: h1_def sampleStore_def drainAttachments_h_def arrayAt_def objectAt_def newCell_def)
  from drained_copies_apart_from_buffer [OF sampleStore_reads sampleStaged_facts(1,2), of sampleDraws]
  obtain attachments h1' where
    d': "drainAttachments_h sampleStore 2 = Some (attachments, h1')"
    and later: "\<forall>evs. \<exists>buffer' h2.
          run_h sampleDraws evs (handleSubmit sampleDraws sampleStaged) (clearAttachments_h h1') = Some (buffer', h2)
        \<and> readAttachments h2 buffer' = Some (composerAttachments (run sampleDraws evs (handleSubmit sampleDraws sampleStaged)))
        \<and> readAttachments h2 attachments = Some (composerAttachments sampleStaged)
        \<and> set (cellsOf h2 buffer') \<inter> set (cellsOf h2 attachments) = {}
        \<and> (\<forall>a c. a \<notin> set (cellsOf h2 attachments) \<longrightarrow>
              readAttachments (h2[a := c]) attachments = Some (composerAttachments sampleStaged))"
    by blast
  from d' dr have eq: "attachments = 4" "h1' = h1" by simp_all
  from later [unfolded eq, THEN spec, of sampleLater] obtain buffer' h2 where
    "run_h sampleDraws sampleLater (handleSubmit sampleDraws sampleStaged) (clearAttachments_h h1) = Some (buffer', h2)"
    "readAttachments h2 4 = Some (composerAttachments sampleStaged)"
    by blast
  then have r: "map_option (\<lambda>bh. readAttachments (snd bh) 4)
        (run_h sampleDraws sampleLater (handleSubmit sampleDraws sampleStaged) (clearAttachments_h h1))
       = Some (Some [\<lparr>att_id = lit ''7'', att_name = lit ''shot.png'', att_type = lit ''image/png'',
                att_size = 2048, att_preview = lit ''data:image/png;base64,AAAA''\<rparr>])"
    by (simp add: sampleStaged_buffer)
  have e: "composerAttachments (handleSubmit sampleDraws sampleStaged) = []"
    "draws (handleSubmit sampleDraws sampleStaged) = 10"
    using sampleStaged_facts(1,2) by (simp_all add: handleSubmit_def Let_def sampleStaged_draws)
  have c10: "createId (sampleDraws 10) = lit ''10''"
    by (simp add: createId_def sampleDraws_def lit_def showNat.simps)
  have one: "map att_id (composerAttachments (run sampleDraws (take 1 sampleLater) (handleSubmit sampleDraws sampleStaged)))
       = [lit ''10'']"
    by (simp add: sampleLater_def addAttachmentFromFile_def e c10)
  have two: "composerAttachments (run sampleDraws (take 2 sampleLater) (handleSubmit sampleDraws sampleStaged)) = []"
    by (simp add: sampleLater_def numeral_2_eq_2 addAttachmentFromFile_def handleRemoveAttachment_def e c10)
  from sampleStore_reads sampleStaged_facts(1,2) dr [unfolded h1_def] one two r [unfolded h1_def]
  show ?thesis by (intro conjI)
qed

text \<open>
  C10. The message that the timer of an accepted submit appends is the one built at
  submit time: its content names the provider and model active then and counts the
  attachments staged then, whatever events (a change of provider or model included)
  happen before the timer runs.
\<close>

theorem reply_content_fixed_at_submit:
  assumes "reachable rnd s" and "hasPendingInput s" and "\<not> isGenerating s"
    and "ReplyTimeout (nextTimer s) \<notin> set evs"
  shows "last (conversationOf (step rnd (ReplyTimeout (nextTimer s)) (run rnd evs (handleSubmit rnd s)))
                 (activeConversationId s))
         = \<lparr>msg_id = createId (rnd (Suc (draws s))), msg_role = Assistant, msg_name = lit ''Nova'',
            msg_avatarFallback = lit ''NO'', msg_avatarUrl = None,
            msg_content =
              assistantContent (po_label (activeProvider s) @ [32, 8226, 32] @ mo_label (activeModel s))
                (composerAttachments s),
            msg_markdown = Some True, msg_attachments = None, msg_reaction = None\<rparr>"
proof -
  define h where "h = nextTimer s"
  define t where "t = run rnd evs (handleSubmit rnd s)"
  define m where "m = \<lparr>msg_id = createId (rnd (Suc (draws s))), msg_role = Assistant, msg_name = lit ''Nova'',
            msg_avatarFallback = lit ''NO'', msg_avatarUrl = None,
            msg_content = assistantContent (providerSummary s) (map copyAttachment (composerAttachments s)),
            msg_markdown = Some True, msg_attachments = None, msg_reaction = None\<rparr>"
  have below: "handlesBelow s" using assms(1) by (rule reachable_handlesBelow)
  have "map_of (replyTimers (handleSubmit rnd s)) h = Some (activeConversationId s, m)"
    unfolding h_def m_def using below assms(2,3) by (rule replyTimers_handleSubmit)
  then have pending: "map_of (replyTimers t) h = Some (activeConversationId s, m)"
    unfolding t_def using assms(4) by (intro replyTimers_run) (simp_all add: h_def)
  have "last (conversationOf (replyTimeout h t) (activeConversationId s)) = m"
    using replyTimeout_fire(1) [OF pending] by simp
  then show ?thesis
    unfolding step.simps h_def [symmetric] t_def [symmetric]
    by (simp add: m_def providerSummary_def)
qed

theorem reply_content_fixed_at_submit_witness:
  "reachable sampleDraws sampleTyped \<and> hasPendingInput sampleTyped \<and> \<not> isGenerating sampleTyped
   \<and> ReplyTimeout (nextTimer sampleTyped)
        \<notin> set [SelectProvider (lit ''anthropic''), SelectModel (lit ''claude-3.5-haiku'')]
   \<and> po_label (activeProvider (run sampleDraws
          [SelectProvider (lit ''anthropic''), SelectModel (lit ''claude-3.5-haiku'')]
          (handleSubmit sampleDraws sampleTyped))) = lit ''Anthropic''
   \<and> msg_content (last (conversationOf (step sampleDraws (ReplyTimeout (nextTimer sampleTyped))
          (run sampleDraws [SelectProvider (lit ''anthropic''), SelectModel (lit ''claude-3.5-haiku'')]
             (handleSubmit sampleDraws sampleTyped)))
          (activeConversationId sampleTyped)))
       = lit ''Pretending to call OpenAI '' @ [8226] @ lit '' GPT-4o.'' @ [10, 10]
         @ lit ''Swap this helper with your real API handler and stream tokens into the conversation.''"
proof -
  have ev: "ReplyTimeout (nextTimer sampleTyped)
        \<notin> set [SelectProvider (lit ''anthropic''), SelectModel (lit ''claude-3.5-haiku'')]"
    by simp
  have att: "composerAttachments sampleTyped = []"
    by (simp add: sampleTyped_def initial_fields)
  have content: "assistantContent (po_label (activeProvider sampleTyped) @ [32, 8226, 32]
                     @ mo_label (activeModel sampleTyped)) (composerAttachments sampleTyped)
       = lit ''Pretending to call OpenAI '' @ [8226] @ lit '' GPT-4o.'' @ [10, 10]
         @ lit ''Swap this helper with your real API handler and stream tokens into the conversation.''"
    unfolding active_sampleTyped att
    by (simp add: assistantContent_def filterBoolean_def providers_def lit_def)
  have later: "po_label (activeProvider (run sampleDraws
          [SelectProvider (lit ''anthropic''), SelectModel (lit ''claude-3.5-haiku'')]
          (handleSubmit sampleDraws sampleTyped))) = lit ''Anthropic''"
    by (simp add: activeProvider_def selectProvider_def Let_def providers_def lit_def)
  show ?thesis
    using reply_content_fixed_at_submit [OF sampleTyped_facts(1,2,3) ev] content later
      sampleTyped_facts(1,2,3) ev
    by simp
qed

end
